theory Spec2Isabelle
  imports Main "HOL-Library.Multiset" "HOL-Library.Sublist"
begin

section \<open>Python values and errors\<close>

text \<open>
  The level editor's data model (\<^verbatim>\<open>data_models.py\<close>) is embedded function by function.
  Python integers are \<^typ>\<open>int\<close>, Python lists are HOL lists, and every exception the
  source can raise is a value of \<open>py_error\<close> on the left of a sum.
\<close>

datatype py_error = IndexError | KeyError | TypeError | JSONDecodeError

text \<open>Python list indexing \<^verbatim>\<open>xs[i]\<close>: a negative index counts from the end.\<close>

definition py_index :: "'a list \<Rightarrow> int \<Rightarrow> py_error + 'a" where
  "py_index xs i =
     (if 0 \<le> i \<and> i < int (length xs) then Inr (xs ! nat i)
      else if i < 0 \<and> - int (length xs) \<le> i then Inr (xs ! nat (int (length xs) + i))
      else Inl IndexError)"

text \<open>Python item assignment \<^verbatim>\<open>xs[i] = v\<close>.\<close>

definition py_setitem :: "'a list \<Rightarrow> int \<Rightarrow> 'a \<Rightarrow> py_error + 'a list" where
  "py_setitem xs i v =
     (if 0 \<le> i \<and> i < int (length xs) then Inr (xs[nat i := v])
      else if i < 0 \<and> - int (length xs) \<le> i then Inr (xs[nat (int (length xs) + i) := v])
      else Inl IndexError)"

text \<open>\<^verbatim>\<open>range(n)\<close> is empty for \<open>n \<le> 0\<close>.\<close>

definition py_range :: "int \<Rightarrow> int list" where
  "py_range n = [0..n - 1]"

section \<open>Tile types\<close>

definition EMPTY :: int where "EMPTY = 0"
definition BLOCK :: int where "BLOCK = 1"
definition PLATFORM :: int where "PLATFORM = 2"
definition SPAWN :: int where "SPAWN = 8"
definition SEARCHABLE :: int where "SEARCHABLE = 9"

section \<open>JSON-compatible Python values\<close>

text \<open>
  The values that \<^verbatim>\<open>json.dumps\<close> writes and \<^verbatim>\<open>json.load\<close> returns in this
  program: \<^verbatim>\<open>None\<close>, integers, strings, lists and dictionaries with string keys.
  A dictionary keeps its insertion order, which is the order \<^verbatim>\<open>json.dumps\<close> writes.
\<close>

datatype pyval =
    PNone
  | PInt int
  | PStr string
  | PList "pyval list"
  | PDict "(string \<times> pyval) list"

section \<open>Room\<close>

record Room =
  id_room :: int
  width :: int
  height :: int
  interior :: "int list list"
  exits :: "(string \<times> pyval) list"
  theme :: "(string \<times> pyval) list"

text \<open>\<^verbatim>\<open>Room.__init__\<close>\<close>

definition Room_init :: "int \<Rightarrow> int \<Rightarrow> int \<Rightarrow> Room" where
  "Room_init room_id w h =
     \<lparr> id_room = room_id, width = w, height = h,
       interior = map (\<lambda>_. map (\<lambda>_. EMPTY) (py_range (w - 2))) (py_range (h - 2)),
       exits = [(''left'', PNone), (''right'', PNone)],
       theme = [(''wall_color'', PStr ''darkgray''), (''floor_color'', PStr ''gray''),
                (''ceiling_color'', PStr ''gray'')] \<rparr>"

definition get_interior_width :: "Room \<Rightarrow> int" where
  "get_interior_width r = width r - 2"

definition get_interior_height :: "Room \<Rightarrow> int" where
  "get_interior_height r = height r - 2"

text \<open>
  \<^verbatim>\<open>Room.get_tile\<close>. The guard reads \<^verbatim>\<open>self.interior[0]\<close> only after
  \<^verbatim>\<open>0 <= y < len(self.interior)\<close> succeeded (short-circuit \<^verbatim>\<open>and\<close>).
\<close>

definition get_tile :: "Room \<Rightarrow> int \<Rightarrow> int \<Rightarrow> py_error + int" where
  "get_tile r x y =
     (if 0 \<le> y \<and> y < int (length (interior r)) then
        (case py_index (interior r) 0 of
           Inl e \<Rightarrow> Inl e
         | Inr row0 \<Rightarrow>
             if 0 \<le> x \<and> x < int (length row0) then
               (case py_index (interior r) y of
                  Inl e \<Rightarrow> Inl e
                | Inr rw \<Rightarrow> py_index rw x)
             else Inr EMPTY)
      else Inr EMPTY)"

text \<open>\<^verbatim>\<open>Room.set_tile\<close>: returns the room after the call.\<close>

definition set_tile :: "Room \<Rightarrow> int \<Rightarrow> int \<Rightarrow> int \<Rightarrow> py_error + Room" where
  "set_tile r x y tile_type =
     (if 0 \<le> y \<and> y < int (length (interior r)) then
        (case py_index (interior r) 0 of
           Inl e \<Rightarrow> Inl e
         | Inr row0 \<Rightarrow>
             if 0 \<le> x \<and> x < int (length row0) then
               (case py_index (interior r) y of
                  Inl e \<Rightarrow> Inl e
                | Inr rw \<Rightarrow>
                    (case py_setitem rw x tile_type of
                       Inl e \<Rightarrow> Inl e
                     | Inr rw' \<Rightarrow>
                         (case py_setitem (interior r) y rw' of
                            Inl e \<Rightarrow> Inl e
                          | Inr rows' \<Rightarrow> Inr (r\<lparr>interior := rows'\<rparr>))))
             else Inr r)
      else Inr r)"

text \<open>
  \<^verbatim>\<open>Room.resize\<close>. The inner loop copies one row:
  \<^verbatim>\<open>for x in range(...): self.interior[y][x] = old_interior[y][x]\<close>.
\<close>

fun resize_copy_row :: "int list \<Rightarrow> int list \<Rightarrow> int list \<Rightarrow> py_error + int list" where
  "resize_copy_row old_row new_row [] = Inr new_row"
| "resize_copy_row old_row new_row (x # xs) =
     (case py_index old_row x of
        Inl e \<Rightarrow> Inl e
      | Inr v \<Rightarrow>
          (case py_setitem new_row x v of
             Inl e \<Rightarrow> Inl e
           | Inr new_row' \<Rightarrow> resize_copy_row old_row new_row' xs))"

text \<open>
  The outer loop; \<^verbatim>\<open>len(old_interior[0])\<close> is evaluated at every iteration, so it
  raises on an empty old interior only if the loop body runs at all.
\<close>

fun resize_copy_rows ::
  "int list list \<Rightarrow> int \<Rightarrow> int list list \<Rightarrow> int list \<Rightarrow> py_error + int list list" where
  "resize_copy_rows old_interior new_iw new_interior [] = Inr new_interior"
| "resize_copy_rows old_interior new_iw new_interior (y # ys) =
     (case py_index old_interior 0 of
        Inl e \<Rightarrow> Inl e
      | Inr row0 \<Rightarrow>
          (case py_index new_interior y of
             Inl e \<Rightarrow> Inl e
           | Inr new_row \<Rightarrow>
               (case py_index old_interior y of
                  Inl e \<Rightarrow> Inl e
                | Inr old_row \<Rightarrow>
                    (case resize_copy_row old_row new_row
                            (py_range (min (int (length row0)) new_iw)) of
                       Inl e \<Rightarrow> Inl e
                     | Inr new_row' \<Rightarrow>
                         (case py_setitem new_interior y new_row' of
                            Inl e \<Rightarrow> Inl e
                          | Inr new_interior' \<Rightarrow>
                              resize_copy_rows old_interior new_iw new_interior' ys)))))"

definition resize :: "Room \<Rightarrow> int \<Rightarrow> int \<Rightarrow> py_error + Room" where
  "resize r new_width new_height =
     (let old_interior = interior r;
          new_interior_width = new_width - 2;
          new_interior_height = new_height - 2;
          fresh = map (\<lambda>_. map (\<lambda>_. EMPTY) (py_range new_interior_width))
                      (py_range new_interior_height)
      in case resize_copy_rows old_interior new_interior_width fresh
                (py_range (min (int (length old_interior)) new_interior_height)) of
           Inl e \<Rightarrow> Inl e
         | Inr new_interior \<Rightarrow>
             Inr (r\<lparr>width := new_width, height := new_height, interior := new_interior\<rparr>))"

text \<open>
  The data-model invariant of a room: the interior has \<open>height - 2\<close> rows of
  \<open>width - 2\<close> tiles each. A rectangular interior only asks that all rows have the
  length of the first one.
\<close>

definition room_ok :: "Room \<Rightarrow> bool" where
  "room_ok r \<longleftrightarrow>
     int (length (interior r)) = height r - 2 \<and>
     list_all (\<lambda>rw. int (length rw) = width r - 2) (interior r)"

definition rectangular :: "int list list \<Rightarrow> bool" where
  "rectangular rws \<longleftrightarrow> list_all (\<lambda>rw. length rw = length (hd rws)) rws"

section \<open>Python \<^verbatim>\<open>str\<close> on integers\<close>

definition digit_char :: "nat \<Rightarrow> char" where
  "digit_char d = ''0123456789'' ! d"

fun str_nat :: "nat \<Rightarrow> string" where
  "str_nat n = (if n < 10 then [digit_char n] else str_nat (n div 10) @ [digit_char (n mod 10)])"

declare str_nat.simps [simp del]

definition str_int :: "int \<Rightarrow> string" where
  "str_int i = (if i < 0 then CHR ''-'' # str_nat (nat (- i)) else str_nat (nat i))"

text \<open>\<^verbatim>\<open>sep.join(parts)\<close>\<close>

fun join :: "'a list \<Rightarrow> 'a list list \<Rightarrow> 'a list" where
  "join sep [] = []"
| "join sep [p] = p"
| "join sep (p # q # ps) = p @ sep @ join sep (q # ps)"

section \<open>Layout entries and the level\<close>

record LayoutEntry =
  room_id :: int
  position :: int

section \<open>Grid positions, connections and floor layouts\<close>

definition NONE :: string where "NONE = ''none''"
definition TOP :: string where "TOP = ''top''"
definition MID :: string where "MID = ''mid''"
definition BOT :: string where "BOT = ''bot''"

text \<open>\<^verbatim>\<open>GridPosition\<close>: equality and hashing are structural in the source.\<close>

datatype GridPosition = GridPosition (row: int) (col: int)

record RoomConnection =
  from_pos :: GridPosition
  to_pos :: GridPosition
  door_position :: string

text \<open>
  \<^verbatim>\<open>FloorLayout.grid\<close> is a dictionary from positions to \<^verbatim>\<open>Optional[int]\<close>: a key can
  be absent (\<open>None\<close>), present and empty (\<open>Some None\<close>) or hold a room id.
\<close>

record FloorLayout =
  rows :: int
  cols :: int
  grid :: "GridPosition \<rightharpoonup> int option"
  connections :: "RoomConnection list"

text \<open>\<^verbatim>\<open>for col in range(n): grid[GridPosition(r, col)] = None\<close>\<close>

definition clear_row :: "int \<Rightarrow> int \<Rightarrow> (GridPosition \<rightharpoonup> int option) \<Rightarrow> (GridPosition \<rightharpoonup> int option)" where
  "clear_row r n g = fold (\<lambda>c g. g(GridPosition r c \<mapsto> None)) (py_range n) g"

text \<open>\<^verbatim>\<open>for row in range(n): grid[GridPosition(row, c)] = None\<close>\<close>

definition clear_column :: "int \<Rightarrow> int \<Rightarrow> (GridPosition \<rightharpoonup> int option) \<Rightarrow> (GridPosition \<rightharpoonup> int option)" where
  "clear_column c n g = fold (\<lambda>r g. g(GridPosition r c \<mapsto> None)) (py_range n) g"

text \<open>\<^verbatim>\<open>FloorLayout.__init__\<close>\<close>

definition FloorLayout_init :: "int \<Rightarrow> int \<Rightarrow> FloorLayout" where
  "FloorLayout_init r c =
     \<lparr> rows = r, cols = c,
       grid = fold (\<lambda>rw g. clear_row rw c g) (py_range r) Map.empty,
       connections = [] \<rparr>"

definition place_room :: "FloorLayout \<Rightarrow> GridPosition \<Rightarrow> int option \<Rightarrow> FloorLayout" where
  "place_room fl pos rid =
     (if pos \<in> dom (grid fl) then fl\<lparr>grid := (grid fl)(pos \<mapsto> rid)\<rparr> else fl)"

text \<open>\<^verbatim>\<open>self.grid.get(pos)\<close>: \<^verbatim>\<open>None\<close> for an absent key as for an empty cell.\<close>

definition get_room_at :: "FloorLayout \<Rightarrow> GridPosition \<Rightarrow> int option" where
  "get_room_at fl pos = (case grid fl pos of None \<Rightarrow> None | Some v \<Rightarrow> v)"

definition add_row :: "FloorLayout \<Rightarrow> FloorLayout" where
  "add_row fl =
     (let r = rows fl + 1
      in fl\<lparr>rows := r, grid := clear_row (r - 1) (cols fl) (grid fl)\<rparr>)"

definition add_column :: "FloorLayout \<Rightarrow> FloorLayout" where
  "add_column fl =
     (let c = cols fl + 1
      in fl\<lparr>cols := c, grid := clear_column (c - 1) (rows fl) (grid fl)\<rparr>)"

text \<open>\<^verbatim>\<open>del self.grid[p]\<close> for each position of a list; an absent key raises.\<close>

fun del_cells ::
  "(GridPosition \<rightharpoonup> int option) \<Rightarrow> GridPosition list \<Rightarrow> py_error + (GridPosition \<rightharpoonup> int option)" where
  "del_cells g [] = Inr g"
| "del_cells g (p # ps) =
     (case g p of None \<Rightarrow> Inl KeyError | Some _ \<Rightarrow> del_cells (g(p := None)) ps)"

text \<open>
  \<^verbatim>\<open>FloorLayout.remove_row\<close> returns the boolean and the layout after the call. Both
  refusals return before anything is written.
\<close>

definition remove_row :: "FloorLayout \<Rightarrow> py_error + (bool \<times> FloorLayout)" where
  "remove_row fl =
     (if rows fl \<le> 1 then Inr (False, fl)
      else if list_ex (\<lambda>c. get_room_at fl (GridPosition (rows fl - 1) c) \<noteq> None)
                (py_range (cols fl))
      then Inr (False, fl)
      else
        (case del_cells (grid fl) (map (\<lambda>c. GridPosition (rows fl - 1) c) (py_range (cols fl))) of
           Inl e \<Rightarrow> Inl e
         | Inr g \<Rightarrow>
             (let r = rows fl - 1
              in Inr (True,
                   fl\<lparr>rows := r, grid := g,
                      connections :=
                        filter (\<lambda>c. row (from_pos c) < r \<and> row (to_pos c) < r)
                          (connections fl)\<rparr>))))"

definition remove_column :: "FloorLayout \<Rightarrow> py_error + (bool \<times> FloorLayout)" where
  "remove_column fl =
     (if cols fl \<le> 1 then Inr (False, fl)
      else if list_ex (\<lambda>r. get_room_at fl (GridPosition r (cols fl - 1)) \<noteq> None)
                (py_range (rows fl))
      then Inr (False, fl)
      else
        (case del_cells (grid fl) (map (\<lambda>r. GridPosition r (cols fl - 1)) (py_range (rows fl))) of
           Inl e \<Rightarrow> Inl e
         | Inr g \<Rightarrow>
             (let c = cols fl - 1
              in Inr (True,
                   fl\<lparr>cols := c, grid := g,
                      connections :=
                        filter (\<lambda>k. col (from_pos k) < c \<and> col (to_pos k) < c)
                          (connections fl)\<rparr>))))"

text \<open>The test both \<^verbatim>\<open>set_connection\<close> and \<^verbatim>\<open>get_connection\<close> apply to a record.\<close>

definition connects :: "GridPosition \<Rightarrow> GridPosition \<Rightarrow> RoomConnection \<Rightarrow> bool" where
  "connects a b c \<longleftrightarrow>
     (from_pos c = a \<and> to_pos c = b) \<or> (from_pos c = b \<and> to_pos c = a)"

definition set_connection ::
  "FloorLayout \<Rightarrow> GridPosition \<Rightarrow> GridPosition \<Rightarrow> string \<Rightarrow> FloorLayout" where
  "set_connection fl a b d =
     (let kept = filter (\<lambda>c. \<not> connects a b c) (connections fl)
      in if d \<noteq> NONE
         then fl\<lparr>connections := kept @ [\<lparr>from_pos = a, to_pos = b, door_position = d\<rparr>]\<rparr>
         else fl\<lparr>connections := kept\<rparr>)"

definition get_connection ::
  "FloorLayout \<Rightarrow> GridPosition \<Rightarrow> GridPosition \<Rightarrow> RoomConnection option" where
  "get_connection fl a b = find (connects a b) (connections fl)"

text \<open>
  At most one record per unordered pair of positions: the two orientations of a door
  never coexist, and no orientation is stored twice.
\<close>

definition one_per_pair :: "RoomConnection list \<Rightarrow> bool" where
  "one_per_pair cs \<longleftrightarrow> distinct (map (\<lambda>c. {from_pos c, to_pos c}) cs)"

text \<open>The grid of the data model is dense: exactly the cells of the extent have an entry.\<close>

definition in_extent :: "FloorLayout \<Rightarrow> GridPosition \<Rightarrow> bool" where
  "in_extent fl p \<longleftrightarrow> 0 \<le> row p \<and> row p < rows fl \<and> 0 \<le> col p \<and> col p < cols fl"

definition dense :: "FloorLayout \<Rightarrow> bool" where
  "dense fl \<longleftrightarrow> (\<forall>p. p \<in> dom (grid fl) \<longleftrightarrow> in_extent fl p)"

section \<open>Level\<close>

record Level =
  tile_types :: pyval
  rooms :: "Room list"
  layout :: "LayoutEntry list"
  floor_layouts :: "FloorLayout list"

text \<open>\<^verbatim>\<open>Level.__init__\<close>\<close>

definition Level_init :: Level where
  "Level_init =
     \<lparr> tile_types = PDict
         [(''0'', PDict [(''name'', PStr ''empty''), (''solidType'', PStr ''none'')]),
          (''1'', PDict [(''name'', PStr ''block''), (''color'', PStr ''brown''),
                         (''solidType'', PStr ''block'')]),
          (''2'', PDict [(''name'', PStr ''platform''), (''color'', PStr ''green''),
                         (''solidType'', PStr ''platform'')]),
          (''8'', PDict [(''name'', PStr ''spawn''), (''color'', PStr ''magenta''),
                         (''solidType'', PStr ''none'')]),
          (''9'', PDict [(''name'', PStr ''searchable''), (''solidType'', PStr ''none'')])],
       rooms = [], layout = [], floor_layouts = [] \<rparr>"

definition add_room :: "Level \<Rightarrow> Room \<Rightarrow> bool \<times> Level" where
  "add_room lv room =
     (if list_ex (\<lambda>r. id_room r = id_room room) (rooms lv) then (False, lv)
      else (True, lv\<lparr>rooms := rooms lv @ [room]\<rparr>))"

text \<open>\<^verbatim>\<open>for i, le in enumerate(self.layout): le.position = i\<close>\<close>

definition resequence :: "LayoutEntry list \<Rightarrow> LayoutEntry list" where
  "resequence les = map (\<lambda>(i, le). le\<lparr>position := int i\<rparr>) (enumerate 0 les)"

text \<open>\<^verbatim>\<open>list.sort(key=...)\<close> is stable, as \<^const>\<open>sort_key\<close> is.\<close>

definition remove_room :: "Level \<Rightarrow> int \<Rightarrow> Level" where
  "remove_room lv rid =
     lv\<lparr>rooms := filter (\<lambda>r. id_room r \<noteq> rid) (rooms lv),
        layout := resequence (sort_key position (filter (\<lambda>le. room_id le \<noteq> rid) (layout lv)))\<rparr>"

definition get_room :: "Level \<Rightarrow> int \<Rightarrow> Room option" where
  "get_room lv rid = find (\<lambda>room. id_room room = rid) (rooms lv)"

text \<open>
  \<^verbatim>\<open>max(r.id for r in self.rooms)\<close>: the builtin keeps the first item and replaces it by
  each later item that is greater.
\<close>

definition py_max :: "int \<Rightarrow> int list \<Rightarrow> int" where
  "py_max x xs = fold (\<lambda>v m. if m < v then v else m) xs x"

definition get_next_room_id :: "Level \<Rightarrow> int" where
  "get_next_room_id lv =
     (case rooms lv of
        [] \<Rightarrow> 1
      | r # rs \<Rightarrow> py_max (id_room r) (map id_room rs) + 1)"

definition add_to_layout :: "Level \<Rightarrow> int \<Rightarrow> bool \<times> Level" where
  "add_to_layout lv rid =
     (if \<not> list_ex (\<lambda>r. id_room r = rid) (rooms lv) then (False, lv)
      else (True,
        lv\<lparr>layout := layout lv @ [\<lparr>room_id = rid, position = int (length (layout lv))\<rparr>]\<rparr>))"

definition remove_from_layout :: "Level \<Rightarrow> int \<Rightarrow> Level" where
  "remove_from_layout lv pos =
     lv\<lparr>layout := resequence (sort_key position (filter (\<lambda>le. position le \<noteq> pos) (layout lv)))\<rparr>"

text \<open>
  \<^verbatim>\<open>Level.move_in_layout\<close>: both indices are list indices, checked against the length
  before \<^verbatim>\<open>pop\<close> and \<^verbatim>\<open>insert\<close> run, so neither raises.
\<close>

definition move_in_layout :: "Level \<Rightarrow> int \<Rightarrow> int \<Rightarrow> Level" where
  "move_in_layout lv old_position new_position =
     (if old_position < 0 \<or> int (length (layout lv)) \<le> old_position then lv
      else if new_position < 0 \<or> int (length (layout lv)) \<le> new_position then lv
      else
        (let entry = layout lv ! nat old_position;
             popped = take (nat old_position) (layout lv) @ drop (Suc (nat old_position)) (layout lv);
             inserted = take (nat new_position) popped @ entry # drop (nat new_position) popped
         in lv\<lparr>layout := resequence inserted\<rparr>))"

text \<open>The layout invariant: the entry at list index \<open>i\<close> has position \<open>i\<close>.\<close>

definition sequential :: "LayoutEntry list \<Rightarrow> bool" where
  "sequential les \<longleftrightarrow> map position les = py_range (int (length les))"

section \<open>Validation\<close>

text \<open>The interior check of one room: at most one message per kind.\<close>

definition interior_errors :: "Room \<Rightarrow> string list" where
  "interior_errors room =
     (let expected_height = height room - 2;
          expected_width = width room - 2
      in (if int (length (interior room)) \<noteq> expected_height
          then [''Room '' @ str_int (id_room room) @ '': Interior height mismatch''] else []) @
         (if list_ex (\<lambda>rw. int (length rw) \<noteq> expected_width) (interior room)
          then [''Room '' @ str_int (id_room room) @ '': Interior width mismatch''] else []))"

text \<open>
  The spawn scan threads the counter and the list of locations through the three nested
  loops. \<^verbatim>\<open>f"Room {room.id} at ({x}, {y})"\<close> is \<open>spawn_location\<close>.
\<close>

definition spawn_location :: "int \<Rightarrow> nat \<Rightarrow> nat \<Rightarrow> string" where
  "spawn_location rid x y =
     ''Room '' @ str_int rid @ '' at ('' @ str_int (int x) @ '', '' @ str_int (int y) @ '')''"

definition scan_row :: "int \<Rightarrow> nat \<Rightarrow> int list \<Rightarrow> nat \<times> string list \<Rightarrow> nat \<times> string list" where
  "scan_row rid y rw acc =
     fold (\<lambda>(x, tile_id) (spawn_count, spawn_locations).
             if tile_id = SPAWN
             then (spawn_count + 1, spawn_locations @ [spawn_location rid x y])
             else (spawn_count, spawn_locations))
       (enumerate 0 rw) acc"

definition scan_room :: "Room \<Rightarrow> nat \<times> string list \<Rightarrow> nat \<times> string list" where
  "scan_room room acc =
     fold (\<lambda>(y, rw) acc. scan_row (id_room room) y rw acc) (enumerate 0 (interior room)) acc"

definition spawn_errors :: "Level \<Rightarrow> string list" where
  "spawn_errors lv =
     (let (spawn_count, spawn_locations) = fold scan_room (rooms lv) (0, [])
      in if spawn_count = 0
         then [''No spawn point found in level (place exactly 1 spawn tile)'']
         else if 1 < spawn_count
         then [''Multiple spawn points found ('' @ str_int (int spawn_count) @
               ''). Only 1 spawn allowed. Locations: '' @ join '', '' spawn_locations]
         else [])"

definition validate :: "Level \<Rightarrow> string list" where
  "validate lv =
     (let room_ids = map id_room (rooms lv);
          e1 = (if length room_ids \<noteq> card (set room_ids)
                then [''Duplicate room IDs found''] else []);
          e2 = concat (map interior_errors (rooms lv));
          e3 = concat (map (\<lambda>entry.
                 if \<not> list_ex (\<lambda>r. id_room r = room_id entry) (rooms lv)
                 then [''Layout references non-existent room '' @ str_int (room_id entry)]
                 else []) (layout lv));
          positions = sort (map position (layout lv));
          expected = py_range (int (length (layout lv)));
          e4 = (if positions \<noteq> expected then [''Layout positions are not sequential''] else [])
      in e1 @ e2 @ e3 @ e4 @ spawn_errors lv)"

text \<open>
  Every occurrence of the spawn tile in the level, as room id and interior coordinates
  \<open>(x, y)\<close>, in scan order; \<open>loc_of\<close> is the text the message gives for one.
\<close>

definition row_occ :: "int list \<Rightarrow> nat list" where
  "row_occ rw = filter (\<lambda>x. rw ! x = SPAWN) [0..<length rw]"

definition rows_occ :: "int \<Rightarrow> int list list \<Rightarrow> (int \<times> nat \<times> nat) list" where
  "rows_occ rid rws =
     concat (map (\<lambda>y. map (\<lambda>x. (rid, x, y)) (row_occ (rws ! y))) [0..<length rws])"

definition spawn_occurrences :: "Level \<Rightarrow> (int \<times> nat \<times> nat) list" where
  "spawn_occurrences lv =
     concat (map (\<lambda>room. rows_occ (id_room room) (interior room)) (rooms lv))"

definition loc_of :: "int \<times> nat \<times> nat \<Rightarrow> string" where
  "loc_of t = (case t of (rid, x, y) \<Rightarrow> spawn_location rid x y)"

definition spawn_related :: "string \<Rightarrow> bool" where
  "spawn_related e \<longleftrightarrow> prefix ''No spawn point'' e \<or> prefix ''Multiple spawn points'' e"

section \<open>\<^verbatim>\<open>json.dumps\<close>\<close>

text \<open>
  The encoder of the Python standard library, for the values above. Strings are
  written by \<^verbatim>\<open>encode_basestring_ascii\<close>: every character outside \<^verbatim>\<open>' '..'~'\<close>, the
  double quote and the backslash are escaped. Characters are the code points below 256.
\<close>

definition hex_char :: "nat \<Rightarrow> char" where
  "hex_char d = ''0123456789abcdef'' ! d"

definition escape_char :: "char \<Rightarrow> string" where
  \<open>escape_char c =
     (if c = CHR ''"'' then [CHR 0x5C, CHR ''"'']
      else if c = CHR 0x5C then [CHR 0x5C, CHR 0x5C]
      else if c = CHR 0x0A then [CHR 0x5C, CHR ''n'']
      else if c = CHR 0x0D then [CHR 0x5C, CHR ''r'']
      else if c = CHR 0x09 then [CHR 0x5C, CHR ''t'']
      else if c = CHR 0x08 then [CHR 0x5C, CHR ''b'']
      else if c = CHR 0x0C then [CHR 0x5C, CHR ''f'']
      else if (of_char c :: nat) < 32 \<or> 126 < (of_char c :: nat)
      then [CHR 0x5C, CHR ''u'', CHR ''0'', CHR ''0'',
            hex_char ((of_char c :: nat) div 16), hex_char ((of_char c :: nat) mod 16)]
      else [c])\<close>

definition encode_string :: "string \<Rightarrow> string" where
  \<open>encode_string s = CHR ''"'' # concat (map escape_char s) @ [CHR ''"'']\<close>

text \<open>
  With \<^verbatim>\<open>indent=None\<close> items are separated by \<^verbatim>\<open>", "\<close> on one line; with
  \<^verbatim>\<open>indent=k\<close> every item starts a new line indented by \<open>k\<close> spaces per nesting level
  and the item separator is \<^verbatim>\<open>","\<close>. The key separator is \<^verbatim>\<open>": "\<close> in both.
\<close>

definition newline_indent :: "nat option \<Rightarrow> nat \<Rightarrow> string" where
  "newline_indent ind lvl =
     (case ind of None \<Rightarrow> [] | Some k \<Rightarrow> CHR 0x0A # replicate (k * lvl) CHR '' '')"

definition item_separator :: "nat option \<Rightarrow> nat \<Rightarrow> string" where
  "item_separator ind lvl =
     (case ind of None \<Rightarrow> '', '' | Some k \<Rightarrow> '','' @ newline_indent ind lvl)"

fun json_dumps :: "nat option \<Rightarrow> nat \<Rightarrow> pyval \<Rightarrow> string" where
  "json_dumps ind lvl PNone = ''null''"
| "json_dumps ind lvl (PInt i) = str_int i"
| "json_dumps ind lvl (PStr s) = encode_string s"
| "json_dumps ind lvl (PList xs) =
     (if xs = [] then ''[]''
      else ''['' @ newline_indent ind (lvl + 1) @
           join (item_separator ind (lvl + 1)) (map (json_dumps ind (lvl + 1)) xs) @
           newline_indent ind lvl @ '']'')"
| "json_dumps ind lvl (PDict kvs) =
     (if kvs = [] then ''{}''
      else ''{'' @ newline_indent ind (lvl + 1) @
           join (item_separator ind (lvl + 1))
             (map (\<lambda>kv. encode_string (fst kv) @ '': '' @ json_dumps ind (lvl + 1) (snd kv)) kvs) @
           newline_indent ind lvl @ ''}'')"

section \<open>Export\<close>

definition GridPosition_to_dict :: "GridPosition \<Rightarrow> pyval" where
  "GridPosition_to_dict p = PDict [(''row'', PInt (row p)), (''col'', PInt (col p))]"

definition RoomConnection_to_dict :: "RoomConnection \<Rightarrow> pyval" where
  "RoomConnection_to_dict c =
     PDict [(''from'', GridPosition_to_dict (from_pos c)),
            (''to'', GridPosition_to_dict (to_pos c)),
            (''door_position'', PStr (door_position c))]"

definition opt_to_py :: "int option \<Rightarrow> pyval" where
  "opt_to_py v = (case v of None \<Rightarrow> PNone | Some i \<Rightarrow> PInt i)"

definition FloorLayout_to_dict :: "FloorLayout \<Rightarrow> pyval" where
  "FloorLayout_to_dict fl =
     PDict [(''rows'', PInt (rows fl)),
            (''cols'', PInt (cols fl)),
            (''grid'',
               PList (map (\<lambda>r. PList (map (\<lambda>c. opt_to_py (get_room_at fl (GridPosition r c)))
                                         (py_range (cols fl))))
                        (py_range (rows fl)))),
            (''connections'', PList (map RoomConnection_to_dict (connections fl)))]"

definition LayoutEntry_to_dict :: "LayoutEntry \<Rightarrow> pyval" where
  "LayoutEntry_to_dict le = PDict [(''room_id'', PInt (room_id le)), (''position'', PInt (position le))]"

text \<open>\<^verbatim>\<open>format_interior\<close>, the local function of \<^verbatim>\<open>to_json\<close>, and the text of one row.\<close>

definition format_row :: "int list \<Rightarrow> string" where
  "format_row rw = ''['' @ join '','' (map str_int rw) @ '']''"

definition format_interior :: "int list list \<Rightarrow> string" where
  \<open>format_interior rws =
     ''[\<newline>        '' @ join '',\<newline>        '' (map format_row rws) @ ''\<newline>      ]''\<close>

text \<open>The text \<^verbatim>\<open>to_json\<close> appends for one room, up to its closing brace.\<close>

definition room_text :: "Room \<Rightarrow> string" where
  \<open>room_text room =
     ''    {\<newline>'' @
     ''      "id": '' @ str_int (id_room room) @ '',\<newline>'' @
     ''      "width": '' @ str_int (width room) @ '',\<newline>'' @
     ''      "height": '' @ str_int (height room) @ '',\<newline>'' @
     ''      "interior": '' @ format_interior (interior room) @ '',\<newline>'' @
     ''      "exits": '' @ json_dumps None 0 (PDict (exits room)) @ '',\<newline>'' @
     ''      "theme": '' @ json_dumps None 0 (PDict (theme room)) @ ''\<newline>'' @
     ''    }''\<close>

text \<open>The loop over \<^verbatim>\<open>enumerate(self.rooms)\<close>: a comma after every room but the last.\<close>

definition rooms_text :: "Room list \<Rightarrow> string" where
  \<open>rooms_text rs =
     concat (map (\<lambda>(i, room).
               room_text room @ (if int i < int (length rs) - 1 then '','' else []) @ ''\<newline>'')
             (enumerate 0 rs))\<close>

text \<open>\<^verbatim>\<open>Level.to_json\<close>: the text written to the file.\<close>

definition to_json :: "Level \<Rightarrow> string" where
  \<open>to_json lv =
     ''{\<newline>'' @
     ''  "tile_types": '' @ json_dumps (Some 4) 0 (tile_types lv) @ '',\<newline>'' @
     ''  "rooms": [\<newline>'' @
     rooms_text (rooms lv) @
     ''  ],\<newline>'' @
     ''  "layout": '' @ json_dumps (Some 4) 0 (PList (map LayoutEntry_to_dict (layout lv))) @ '',\<newline>'' @
     ''  "floor_layouts": '' @
       json_dumps (Some 4) 0 (PList (map FloorLayout_to_dict (floor_layouts lv))) @ ''\<newline>'' @
     ''}\<newline>''\<close>

section \<open>\<^verbatim>\<open>json.load\<close>\<close>

text \<open>
  The reader of the Python standard library, for the documents this program writes:
  \<^verbatim>\<open>null\<close>, integers, strings, arrays and objects, with any JSON whitespace between
  tokens. It works in two passes: \<open>scan\<close> cuts the text into tokens, one character at a
  time, and \<open>parse_value\<close> builds the value. A document outside this fragment
  (\<^verbatim>\<open>true\<close>, \<^verbatim>\<open>false\<close>, a fraction or an exponent, a code point above 255) is
  reported as an error, like a malformed one.
\<close>

datatype token =
  TLBrack | TRBrack | TLBrace | TRBrace | TComma | TColon | TNull | TInt int | TStr string

datatype lstate =
    Idle
  | InStr string
  | InEsc string
  | InUni string "nat list"
  | InNeg
  | InZero
  | InNum bool nat
  | InNull nat

definition is_ws :: "char \<Rightarrow> bool" where
  "is_ws c \<longleftrightarrow> c = CHR '' '' \<or> c = CHR 0x09 \<or> c = CHR 0x0A \<or> c = CHR 0x0D"

definition digit_val :: "char \<Rightarrow> nat option" where
  "digit_val c =
     (if (48::nat) \<le> of_char c \<and> (of_char c :: nat) \<le> 57 then Some (of_char c - 48) else None)"

definition hex_val :: "char \<Rightarrow> nat option" where
  "hex_val c =
     (if (48::nat) \<le> of_char c \<and> (of_char c :: nat) \<le> 57 then Some (of_char c - 48)
      else if (97::nat) \<le> of_char c \<and> (of_char c :: nat) \<le> 102 then Some (of_char c - 87)
      else if (65::nat) \<le> of_char c \<and> (of_char c :: nat) \<le> 70 then Some (of_char c - 55)
      else None)"

definition float_mark :: "char \<Rightarrow> bool" where
  "float_mark c \<longleftrightarrow> c = CHR ''.'' \<or> c = CHR ''e'' \<or> c = CHR ''E''"

definition emit :: "token \<Rightarrow> token list option \<Rightarrow> token list option" where
  "emit t r = map_option (Cons t) r"

definition signed :: "bool \<Rightarrow> nat \<Rightarrow> int" where
  "signed neg n = (if neg then - int n else int n)"

function (sequential) scan :: "lstate \<Rightarrow> string \<Rightarrow> token list option" where
  "scan Idle [] = Some []"
| \<open>scan Idle (c # cs) =
     (if is_ws c then scan Idle cs
      else if c = CHR ''['' then emit TLBrack (scan Idle cs)
      else if c = CHR '']'' then emit TRBrack (scan Idle cs)
      else if c = CHR ''{'' then emit TLBrace (scan Idle cs)
      else if c = CHR ''}'' then emit TRBrace (scan Idle cs)
      else if c = CHR '','' then emit TComma (scan Idle cs)
      else if c = CHR '':'' then emit TColon (scan Idle cs)
      else if c = CHR ''"'' then scan (InStr []) cs
      else if c = CHR ''-'' then scan InNeg cs
      else if c = CHR ''0'' then scan InZero cs
      else if c = CHR ''n'' then scan (InNull 1) cs
      else (case digit_val c of Some d \<Rightarrow> scan (InNum False d) cs | None \<Rightarrow> None))\<close>
| "scan (InStr acc) [] = None"
| \<open>scan (InStr acc) (c # cs) =
     (if c = CHR ''"'' then emit (TStr acc) (scan Idle cs)
      else if c = CHR 0x5C then scan (InEsc acc) cs
      else if (of_char c :: nat) < 32 then None
      else scan (InStr (acc @ [c])) cs)\<close>
| "scan (InEsc acc) [] = None"
| \<open>scan (InEsc acc) (c # cs) =
     (if c = CHR ''"'' then scan (InStr (acc @ [CHR ''"''])) cs
      else if c = CHR 0x5C then scan (InStr (acc @ [CHR 0x5C])) cs
      else if c = CHR ''/'' then scan (InStr (acc @ [CHR ''/''])) cs
      else if c = CHR ''b'' then scan (InStr (acc @ [CHR 0x08])) cs
      else if c = CHR ''f'' then scan (InStr (acc @ [CHR 0x0C])) cs
      else if c = CHR ''n'' then scan (InStr (acc @ [CHR 0x0A])) cs
      else if c = CHR ''r'' then scan (InStr (acc @ [CHR 0x0D])) cs
      else if c = CHR ''t'' then scan (InStr (acc @ [CHR 0x09])) cs
      else if c = CHR ''u'' then scan (InUni acc []) cs
      else None)\<close>
| "scan (InUni acc ds) [] = None"
| "scan (InUni acc ds) (c # cs) =
     (case hex_val c of
        None \<Rightarrow> None
      | Some h \<Rightarrow>
          if length ds < 3 then scan (InUni acc (ds @ [h])) cs
          else (let code = fold (\<lambda>d a. 16 * a + d) (ds @ [h]) 0
                in if code < 256 then scan (InStr (acc @ [char_of code])) cs else None))"
| "scan InNeg [] = None"
| "scan InNeg (c # cs) =
     (if c = CHR ''0'' then scan InZero cs
      else (case digit_val c of Some d \<Rightarrow> scan (InNum True d) cs | None \<Rightarrow> None))"
| "scan InZero [] = Some [TInt 0]"
| "scan InZero (c # cs) = (if float_mark c then None else emit (TInt 0) (scan Idle (c # cs)))"
| "scan (InNum neg n) [] = Some [TInt (signed neg n)]"
| "scan (InNum neg n) (c # cs) =
     (case digit_val c of
        Some d \<Rightarrow> scan (InNum neg (10 * n + d)) cs
      | None \<Rightarrow> if float_mark c then None else emit (TInt (signed neg n)) (scan Idle (c # cs)))"
| "scan (InNull k) [] = None"
| "scan (InNull k) (c # cs) =
     (if k = 1 \<and> c = CHR ''u'' then scan (InNull 2) cs
      else if k = 2 \<and> c = CHR ''l'' then scan (InNull 3) cs
      else if k = 3 \<and> c = CHR ''l'' then emit TNull (scan Idle cs)
      else None)"
  by pat_completeness auto
termination
  by (relation "measures [\<lambda>(st, s). length s, \<lambda>(st, s). if st = Idle then 0 else 1]") auto

text \<open>
  \<^verbatim>\<open>d[k] = v\<close> on a dictionary: an existing key keeps its place and takes the new value,
  a new key goes to the end. A repeated key of a JSON object is read this way.
\<close>

fun dict_set :: "(string \<times> pyval) list \<Rightarrow> string \<Rightarrow> pyval \<Rightarrow> (string \<times> pyval) list" where
  "dict_set [] k v = [(k, v)]"
| "dict_set ((k', v') # d) k v = (if k' = k then (k', v) # d else (k', v') # dict_set d k v)"

text \<open>The parser counts its recursive calls down from the number of tokens.\<close>

fun parse_value :: "nat \<Rightarrow> token list \<Rightarrow> (pyval \<times> token list) option"
  and parse_elems :: "nat \<Rightarrow> pyval list \<Rightarrow> token list \<Rightarrow> (pyval \<times> token list) option"
  and parse_members ::
    "nat \<Rightarrow> (string \<times> pyval) list \<Rightarrow> token list \<Rightarrow> (pyval \<times> token list) option" where
  "parse_value 0 ts = None"
| "parse_value (Suc n) [] = None"
| "parse_value (Suc n) (TNull # r) = Some (PNone, r)"
| "parse_value (Suc n) (TInt i # r) = Some (PInt i, r)"
| "parse_value (Suc n) (TStr s # r) = Some (PStr s, r)"
| "parse_value (Suc n) (TLBrack # r) =
     (case r of TRBrack # r' \<Rightarrow> Some (PList [], r') | _ \<Rightarrow> parse_elems n [] r)"
| "parse_value (Suc n) (TLBrace # r) =
     (case r of TRBrace # r' \<Rightarrow> Some (PDict [], r') | _ \<Rightarrow> parse_members n [] r)"
| "parse_value (Suc n) (TRBrack # r) = None"
| "parse_value (Suc n) (TRBrace # r) = None"
| "parse_value (Suc n) (TComma # r) = None"
| "parse_value (Suc n) (TColon # r) = None"
| "parse_elems 0 acc ts = None"
| "parse_elems (Suc n) acc ts =
     (case parse_value n ts of
        None \<Rightarrow> None
      | Some (v, r) \<Rightarrow>
          (case r of
             TComma # r' \<Rightarrow> parse_elems n (acc @ [v]) r'
           | TRBrack # r' \<Rightarrow> Some (PList (acc @ [v]), r')
           | _ \<Rightarrow> None))"
| "parse_members 0 acc ts = None"
| "parse_members (Suc n) acc ts =
     (case ts of
        TStr k # TColon # r \<Rightarrow>
          (case parse_value n r of
             None \<Rightarrow> None
           | Some (v, r') \<Rightarrow>
               (case r' of
                  TComma # r'' \<Rightarrow> parse_members n (dict_set acc k v) r''
                | TRBrace # r'' \<Rightarrow> Some (PDict (dict_set acc k v), r'')
                | _ \<Rightarrow> None))
      | _ \<Rightarrow> None)"

text \<open>\<^verbatim>\<open>json.loads\<close>: one value, then nothing but whitespace.\<close>

definition json_loads :: "string \<Rightarrow> py_error + pyval" where
  "json_loads s =
     (case scan Idle s of
        None \<Rightarrow> Inl JSONDecodeError
      | Some ts \<Rightarrow>
          (case parse_value (Suc (length ts)) ts of
             Some (v, []) \<Rightarrow> Inr v
           | _ \<Rightarrow> Inl JSONDecodeError))"

section \<open>Import\<close>

text \<open>
  Reading the fields of a parsed document. A missing key raises \<^verbatim>\<open>KeyError\<close> as in the
  source. The records are typed, so a value of another type than the field's annotation
  is reported as \<^verbatim>\<open>TypeError\<close> here, where the source would store it unchecked.
\<close>

definition rbind :: "py_error + 'a \<Rightarrow> ('a \<Rightarrow> py_error + 'b) \<Rightarrow> py_error + 'b" where
  "rbind m f = (case m of Inl e \<Rightarrow> Inl e | Inr x \<Rightarrow> f x)"

fun rmap :: "('a \<Rightarrow> py_error + 'b) \<Rightarrow> 'a list \<Rightarrow> py_error + 'b list" where
  "rmap f [] = Inr []"
| "rmap f (x # xs) = rbind (f x) (\<lambda>y. rbind (rmap f xs) (\<lambda>ys. Inr (y # ys)))"

definition dict_item :: "(string \<times> pyval) list \<Rightarrow> string \<Rightarrow> py_error + pyval" where
  "dict_item d k = (case map_of d k of None \<Rightarrow> Inl KeyError | Some v \<Rightarrow> Inr v)"

definition dict_get :: "(string \<times> pyval) list \<Rightarrow> string \<Rightarrow> pyval \<Rightarrow> pyval" where
  "dict_get d k dflt = (case map_of d k of None \<Rightarrow> dflt | Some v \<Rightarrow> v)"

definition as_int :: "pyval \<Rightarrow> py_error + int" where
  "as_int v = (case v of PInt i \<Rightarrow> Inr i | _ \<Rightarrow> Inl TypeError)"

definition as_opt_int :: "pyval \<Rightarrow> py_error + int option" where
  "as_opt_int v = (case v of PInt i \<Rightarrow> Inr (Some i) | PNone \<Rightarrow> Inr None | _ \<Rightarrow> Inl TypeError)"

definition as_str :: "pyval \<Rightarrow> py_error + string" where
  "as_str v = (case v of PStr s \<Rightarrow> Inr s | _ \<Rightarrow> Inl TypeError)"

definition as_list :: "pyval \<Rightarrow> py_error + pyval list" where
  "as_list v = (case v of PList xs \<Rightarrow> Inr xs | _ \<Rightarrow> Inl TypeError)"

definition as_dict :: "pyval \<Rightarrow> py_error + (string \<times> pyval) list" where
  "as_dict v = (case v of PDict d \<Rightarrow> Inr d | _ \<Rightarrow> Inl TypeError)"

definition as_interior :: "pyval \<Rightarrow> py_error + int list list" where
  "as_interior v = rbind (as_list v) (rmap (\<lambda>rw. rbind (as_list rw) (rmap as_int)))"

text \<open>\<^verbatim>\<open>Room.from_dict\<close>\<close>

definition Room_from_dict :: "pyval \<Rightarrow> py_error + Room" where
  "Room_from_dict data =
     rbind (as_dict data) (\<lambda>d.
     rbind (rbind (dict_item d ''id'') as_int) (\<lambda>rid.
     rbind (rbind (dict_item d ''width'') as_int) (\<lambda>w.
     rbind (rbind (dict_item d ''height'') as_int) (\<lambda>h.
     rbind (rbind (dict_item d ''interior'') as_interior) (\<lambda>rws.
     rbind (rbind (dict_item d ''exits'') as_dict) (\<lambda>ex.
     rbind (rbind (dict_item d ''theme'') as_dict) (\<lambda>th.
       Inr ((Room_init rid w h)\<lparr>interior := rws, exits := ex, theme := th\<rparr>))))))))"

text \<open>\<^verbatim>\<open>LayoutEntry.from_dict\<close>\<close>

definition LayoutEntry_from_dict :: "pyval \<Rightarrow> py_error + LayoutEntry" where
  "LayoutEntry_from_dict data =
     rbind (as_dict data) (\<lambda>d.
     rbind (rbind (dict_item d ''room_id'') as_int) (\<lambda>rid.
     rbind (rbind (dict_item d ''position'') as_int) (\<lambda>pos.
       Inr \<lparr>room_id = rid, position = pos\<rparr>)))"

text \<open>\<^verbatim>\<open>GridPosition.from_dict\<close> and \<^verbatim>\<open>RoomConnection.from_dict\<close>\<close>

definition GridPosition_from_dict :: "pyval \<Rightarrow> py_error + GridPosition" where
  "GridPosition_from_dict data =
     rbind (as_dict data) (\<lambda>d.
     rbind (rbind (dict_item d ''row'') as_int) (\<lambda>r.
     rbind (rbind (dict_item d ''col'') as_int) (\<lambda>c.
       Inr (GridPosition r c))))"

definition RoomConnection_from_dict :: "pyval \<Rightarrow> py_error + RoomConnection" where
  "RoomConnection_from_dict data =
     rbind (as_dict data) (\<lambda>d.
     rbind (rbind (dict_item d ''from'') GridPosition_from_dict) (\<lambda>a.
     rbind (rbind (dict_item d ''to'') GridPosition_from_dict) (\<lambda>b.
     rbind (rbind (dict_item d ''door_position'') as_str) (\<lambda>dp.
       Inr \<lparr>from_pos = a, to_pos = b, door_position = dp\<rparr>))))"

text \<open>
  The two loops of \<^verbatim>\<open>FloorLayout.from_dict\<close> that copy \<^verbatim>\<open>grid_list[row][col]\<close> into
  the grid; both subscripts can raise \<^verbatim>\<open>IndexError\<close>.
\<close>

fun fill_row ::
  "pyval list \<Rightarrow> int \<Rightarrow> (GridPosition \<rightharpoonup> int option) \<Rightarrow> int list \<Rightarrow>
   py_error + (GridPosition \<rightharpoonup> int option)" where
  "fill_row grid_list r g [] = Inr g"
| "fill_row grid_list r g (c # cs) =
     rbind (rbind (py_index grid_list r) as_list) (\<lambda>row_data.
     rbind (rbind (py_index row_data c) as_opt_int) (\<lambda>rid.
       fill_row grid_list r (g(GridPosition r c \<mapsto> rid)) cs))"

fun fill_rows ::
  "pyval list \<Rightarrow> int \<Rightarrow> (GridPosition \<rightharpoonup> int option) \<Rightarrow> int list \<Rightarrow>
   py_error + (GridPosition \<rightharpoonup> int option)" where
  "fill_rows grid_list n g [] = Inr g"
| "fill_rows grid_list n g (r # rs) =
     rbind (fill_row grid_list r g (py_range n)) (\<lambda>g'. fill_rows grid_list n g' rs)"

definition FloorLayout_from_dict :: "pyval \<Rightarrow> py_error + FloorLayout" where
  "FloorLayout_from_dict data =
     rbind (as_dict data) (\<lambda>d.
     rbind (rbind (dict_item d ''rows'') as_int) (\<lambda>nr.
     rbind (rbind (dict_item d ''cols'') as_int) (\<lambda>nc.
     rbind (rbind (dict_item d ''grid'') as_list) (\<lambda>grid_list.
     rbind (fill_rows grid_list nc (grid (FloorLayout_init nr nc)) (py_range nr)) (\<lambda>g.
     rbind (rbind (as_list (dict_get d ''connections'' (PList []))) (rmap RoomConnection_from_dict))
       (\<lambda>cs. Inr ((FloorLayout_init nr nc)\<lparr>grid := g, connections := cs\<rparr>)))))))"

text \<open>\<^verbatim>\<open>Level.from_json\<close>, from the text of the file.\<close>

definition from_json :: "string \<Rightarrow> py_error + Level" where
  "from_json text =
     rbind (json_loads text) (\<lambda>data.
     rbind (as_dict data) (\<lambda>d.
     rbind (rbind (as_list (dict_get d ''rooms'' (PList []))) (rmap Room_from_dict)) (\<lambda>rs.
     rbind (rbind (as_list (dict_get d ''layout'' (PList []))) (rmap LayoutEntry_from_dict)) (\<lambda>les.
     rbind (rbind (as_list (dict_get d ''floor_layouts'' (PList []))) (rmap FloorLayout_from_dict))
       (\<lambda>fls.
         Inr (Level_init\<lparr>tile_types := dict_get d ''tile_types'' (tile_types Level_init),
                         rooms := rs, layout := les, floor_layouts := fls\<rparr>))))))"

text \<open>
  Python dictionaries have distinct keys; \<open>wf_pyval\<close> says so for the association lists
  that stand for them, at every depth.
\<close>

fun wf_pyval :: "pyval \<Rightarrow> bool" where
  "wf_pyval PNone = True"
| "wf_pyval (PInt i) = True"
| "wf_pyval (PStr s) = True"
| "wf_pyval (PList xs) = list_all wf_pyval xs"
| "wf_pyval (PDict kvs) = (distinct (map fst kvs) \<and> list_all (\<lambda>kv. wf_pyval (snd kv)) kvs)"

text \<open>
  A level whose dictionaries are dictionaries: the tile table, and the exits and the theme
  of every room.
\<close>

definition dicts_ok :: "Level \<Rightarrow> bool" where
  "dicts_ok lv \<longleftrightarrow>
     wf_pyval (tile_types lv) \<and>
     list_all (\<lambda>r. wf_pyval (PDict (exits r)) \<and> wf_pyval (PDict (theme r))) (rooms lv)"

text \<open>The token sequence of a value, whatever the whitespace of its text.\<close>

fun toks :: "pyval \<Rightarrow> token list" where
  "toks PNone = [TNull]"
| "toks (PInt i) = [TInt i]"
| "toks (PStr s) = [TStr s]"
| "toks (PList xs) = TLBrack # join [TComma] (map toks xs) @ [TRBrack]"
| "toks (PDict kvs) =
     TLBrace # join [TComma] (map (\<lambda>kv. TStr (fst kv) # TColon # toks (snd kv)) kvs) @ [TRBrace]"

text \<open>The document \<^verbatim>\<open>to_json\<close> writes, as a value.\<close>

definition Room_to_dict :: "Room \<Rightarrow> pyval" where
  "Room_to_dict r =
     PDict [(''id'', PInt (id_room r)), (''width'', PInt (width r)), (''height'', PInt (height r)),
            (''interior'', PList (map (\<lambda>rw. PList (map PInt rw)) (interior r))),
            (''exits'', PDict (exits r)), (''theme'', PDict (theme r))]"

definition Level_to_dict :: "Level \<Rightarrow> pyval" where
  "Level_to_dict lv =
     PDict [(''tile_types'', tile_types lv),
            (''rooms'', PList (map Room_to_dict (rooms lv))),
            (''layout'', PList (map LayoutEntry_to_dict (layout lv))),
            (''floor_layouts'', PList (map FloorLayout_to_dict (floor_layouts lv)))]"

text \<open>Notions for reasoning about the reader: several tokens at once, and what may follow a number or a value.\<close>

definition emits :: "token list \<Rightarrow> token list option \<Rightarrow> token list option" where
  "emits ts r = map_option ((@) ts) r"

definition num_end :: "string \<Rightarrow> bool" where
  "num_end rest = (case rest of [] \<Rightarrow> True | c # _ \<Rightarrow> digit_val c = None \<and> \<not> float_mark c)"

definition delim :: "string \<Rightarrow> bool" where
  "delim rest = (case rest of [] \<Rightarrow> True
                 | c # _ \<Rightarrow> c = CHR '','' \<or> c = CHR '']'' \<or> c = CHR ''}'' \<or> c = CHR 0x0A \<or> c = CHR '' '')"

section \<open>Ranges and indexing\<close>

lemma upto_int_nat: "[0..int k - 1] = map int [0..<k]"
proof (induction k)
  case 0 show ?case by simp
next
  case (Suc k)
  have "[0..int (Suc k) - 1] = [0..int k - 1] @ [int k]"
    using upto_rec2 [of 0 "int k"] by simp
  with Suc show ?case by simp
qed

lemma py_range_nat: "py_range n = map int [0..<nat n]"
proof (cases "0 \<le> n")
  case True
  then show ?thesis
    using upto_int_nat [of "nat n"] by (simp add: py_range_def)
next
  case False then show ?thesis by (simp add: py_range_def)
qed

lemma py_index_nat: "n < length xs \<Longrightarrow> py_index xs (int n) = Inr (xs ! n)"
  by (simp add: py_index_def)

lemma py_setitem_nat: "n < length xs \<Longrightarrow> py_setitem xs (int n) v = Inr (xs[n := v])"
  by (simp add: py_setitem_def)

section \<open>Tile access\<close>

lemma rectangular_nth:
  "rectangular rws \<Longrightarrow> n < length rws \<Longrightarrow> length (rws ! n) = length (rws ! 0)"
  by (cases rws) (auto simp: rectangular_def list_all_length hd_conv_nth)

lemma get_tile_in_rows:
  assumes "rectangular rws" and "0 \<le> y" and "y < int (length rws)" and "interior r = rws"
  shows "get_tile r x y =
           (if 0 \<le> x \<and> x < int (length (rws ! nat y)) then Inr (rws ! nat y ! nat x)
            else Inr EMPTY)"
proof -
  from assms have ny: "nat y < length rws" by linarith
  have len: "length (rws ! nat y) = length (rws ! 0)"
    using rectangular_nth [OF assms(1) ny] .
  from ny have i0: "py_index rws 0 = Inr (rws ! 0)"
    by (cases rws) (simp_all add: py_index_def)
  from assms ny have iy: "py_index rws y = Inr (rws ! nat y)"
    by (simp add: py_index_def)
  have ix: "0 \<le> x \<Longrightarrow> x < int (length (rws ! 0)) \<Longrightarrow>
              py_index (rws ! nat y) x = Inr (rws ! nat y ! nat x)"
    by (simp add: py_index_def len)
  show ?thesis
    unfolding get_tile_def assms(4) using assms(2,3) ix by (simp add: i0 iy len)
qed

lemma set_tile_in_rows:
  assumes "rectangular rws" and "0 \<le> y" and "y < int (length rws)" and "interior r = rws"
    and "\<not> (0 \<le> x \<and> x < int (length (rws ! nat y)))"
  shows "set_tile r x y t = Inr r"
proof -
  from assms have ny: "nat y < length rws" by linarith
  have len: "length (rws ! nat y) = length (rws ! 0)"
    using rectangular_nth [OF assms(1) ny] .
  from ny have i0: "py_index rws 0 = Inr (rws ! 0)"
    by (cases rws) (simp_all add: py_index_def)
  show ?thesis
    unfolding set_tile_def assms(4) using assms(2,3,5) by (auto simp: i0 len)
qed

text \<open>
  Claim C8. For a room whose interior is rectangular and any integers \<open>x\<close>, \<open>y\<close>:
  \<open>get_tile\<close> never raises; it returns the stored tile when \<open>0 \<le> y < \<close> number of interior
  rows and \<open>0 \<le> x < \<close> number of interior columns, and \<open>EMPTY\<close> otherwise. \<open>set_tile\<close> at
  a coordinate outside that range never raises and returns the room unchanged in every
  field.
\<close>

theorem tile_access_permissive:
  assumes "rectangular (interior r)"
  shows "get_tile r x y =
           Inr (if 0 \<le> y \<and> y < int (length (interior r)) \<and>
                   0 \<le> x \<and> x < int (length (interior r ! nat y))
                then interior r ! nat y ! nat x else EMPTY) \<and>
         (\<not> (0 \<le> y \<and> y < int (length (interior r)) \<and>
              0 \<le> x \<and> x < int (length (interior r ! nat y))) \<longrightarrow>
            set_tile r x y t = Inr r)"
proof (cases "0 \<le> y \<and> y < int (length (interior r))")
  case False
  then show ?thesis unfolding get_tile_def set_tile_def by auto
next
  case True
  then show ?thesis
    using get_tile_in_rows [OF assms, of y r x] set_tile_in_rows [OF assms, of y r x t]
    by auto
qed

theorem tile_access_permissive_witness:
  "rectangular (interior (Room_init 1 5 4\<lparr>interior := [[1, 2, 0], [0, 8, 9]]\<rparr>)) \<and>
   get_tile (Room_init 1 5 4\<lparr>interior := [[1, 2, 0], [0, 8, 9]]\<rparr>) 1 1 = Inr 8 \<and>
   get_tile (Room_init 1 5 4\<lparr>interior := [[1, 2, 0], [0, 8, 9]]\<rparr>) 3 0 = Inr EMPTY \<and>
   get_tile (Room_init 1 5 4\<lparr>interior := [[1, 2, 0], [0, 8, 9]]\<rparr>) (- 1) 0 = Inr EMPTY \<and>
   set_tile (Room_init 1 5 4\<lparr>interior := [[1, 2, 0], [0, 8, 9]]\<rparr>) 1 2 7 =
     Inr (Room_init 1 5 4\<lparr>interior := [[1, 2, 0], [0, 8, 9]]\<rparr>)"
proof -
  let ?r = "Room_init 1 5 4\<lparr>interior := [[1, 2, 0], [0, 8, 9]]\<rparr>"
  have h: "rectangular (interior ?r)" by (simp add: rectangular_def)
  show ?thesis
    using h tile_access_permissive [OF h, of 1 1 7] tile_access_permissive [OF h, of 3 0 7]
      tile_access_permissive [OF h, of "- 1" 0 7] tile_access_permissive [OF h, of 1 2 7]
    by simp
qed

section \<open>Resizing a room\<close>

lemma resize_copy_row_append:
  "resize_copy_row old new (xs @ ys) =
     (case resize_copy_row old new xs of Inl e \<Rightarrow> Inl e | Inr nw \<Rightarrow> resize_copy_row old nw ys)"
  by (induction xs arbitrary: new) (auto split: sum.splits)

lemma resize_copy_row_prefix:
  "n \<le> length old \<Longrightarrow> n \<le> length new \<Longrightarrow>
   resize_copy_row old new (map int [0..<n]) = Inr (take n old @ drop n new)"
proof (induction n)
  case 0 show ?case by simp
next
  case (Suc n)
  then have ih: "resize_copy_row old new (map int [0..<n]) = Inr (take n old @ drop n new)"
    by simp
  from Suc.prems have lt: "n < length old" "n < length new" by simp_all
  have upd: "(take n old @ drop n new)[n := old ! n] = take (Suc n) old @ drop (Suc n) new"
    using lt by (simp add: list_update_append take_Suc_conv_app_nth upd_conv_take_nth_drop
        Cons_nth_drop_Suc [symmetric] min_def)
  have "resize_copy_row old new (map int [0..<Suc n]) =
          resize_copy_row old (take n old @ drop n new) [int n]"
    using resize_copy_row_append [of old new "map int [0..<n]" "[int n]"] ih by simp
  also have "\<dots> = Inr ((take n old @ drop n new)[n := old ! n])"
    using lt by (simp add: py_index_nat py_setitem_nat)
  finally show ?case using upd by simp
qed

lemma resize_copy_rows_append:
  "resize_copy_rows old iw new (xs @ ys) =
     (case resize_copy_rows old iw new xs of Inl e \<Rightarrow> Inl e
      | Inr nw \<Rightarrow> resize_copy_rows old iw nw ys)"
  by (induction xs arbitrary: new) (auto split: sum.splits)


lemma resize_copy_rows_prefix:
  assumes "m \<le> length old" and "m \<le> length new"
    and "\<forall>y<m. k \<le> length (old ! y) \<and> k \<le> length (new ! y)"
    and "0 < m \<longrightarrow> nat (min (int (length (old ! 0))) iw) = k"
  shows "resize_copy_rows old iw new (map int [0..<m]) =
           Inr (map (\<lambda>y. take k (old ! y) @ drop k (new ! y)) [0..<m] @ drop m new)"
  using assms
proof (induction m)
  case 0 show ?case by simp
next
  case (Suc m)
  let ?f = "\<lambda>y. take k (old ! y) @ drop k (new ! y)"
  let ?S = "map ?f [0..<m] @ drop m new"
  from Suc.prems have lt: "m < length old" "m < length new" by simp_all
  have kk: "nat (min (int (length (old ! 0))) iw) = k" using Suc.prems(4) by simp
  have ih: "resize_copy_rows old iw new (map int [0..<m]) = Inr ?S"
    using Suc.IH Suc.prems kk by simp
  have lenS: "length ?S = length new" using lt by simp
  have Sm: "?S ! m = new ! m" using lt by (simp add: nth_append)
  have i0: "py_index old 0 = Inr (old ! 0)"
    using lt(1) by (cases old) (simp_all add: py_index_def)
  have iS: "py_index ?S (int m) = Inr (new ! m)"
    using py_index_nat [of m ?S] lenS lt(2) Sm by simp
  have io: "py_index old (int m) = Inr (old ! m)"
    using py_index_nat [OF lt(1)] .
  have km: "k \<le> length (old ! m)" "k \<le> length (new ! m)" using Suc.prems(3) by simp_all
  have row: "resize_copy_row (old ! m) (new ! m) (py_range (min (int (length (old ! 0))) iw)) =
               Inr (?f m)"
    using resize_copy_row_prefix [OF km] by (simp add: py_range_nat kk)
  have st: "py_setitem ?S (int m) (?f m) = Inr (?S[m := ?f m])"
    using py_setitem_nat [of m ?S] lenS lt(2) by simp
  have upd: "?S[m := ?f m] = map ?f [0..<Suc m] @ drop (Suc m) new"
    using lt(2) by (simp add: list_update_append Cons_nth_drop_Suc [symmetric])
  have "resize_copy_rows old iw new (map int [0..<Suc m]) =
          resize_copy_rows old iw ?S [int m]"
    using resize_copy_rows_append [of old iw new "map int [0..<m]" "[int m]"] ih by simp
  also have "\<dots> = Inr (?S[m := ?f m])"
    by (simp add: i0 iS io row st)
  finally show ?case using upd by simp
qed


lemma nth_map_upt_drop:
  assumes "m \<le> length xs" and "i < length xs"
  shows "(map f [0..<m] @ drop m xs) ! i = (if i < m then f i else xs ! i)"
  using assms by (simp add: nth_append)

lemma fresh_rows:
  "map (\<lambda>_. map (\<lambda>_. EMPTY) (py_range w)) (py_range h) = replicate (nat h) (replicate (nat w) EMPTY)"
  by (simp add: py_range_nat map_replicate_const)

lemma room_ok_rectangular: "room_ok r \<Longrightarrow> rectangular (interior r)"
  by (cases "interior r") (auto simp: room_ok_def rectangular_def list_all_iff)

lemma resize_rectangular:
  assumes "rectangular (interior r)" and "2 \<le> new_w" and "2 \<le> new_h"
  shows "\<exists>r'. resize r new_w new_h = Inr r' \<and>
           width r' = new_w \<and> height r' = new_h \<and>
           id_room r' = id_room r \<and> exits r' = exits r \<and> theme r' = theme r \<and>
           int (length (interior r')) = new_h - 2 \<and>
           (\<forall>rw \<in> set (interior r'). int (length rw) = new_w - 2) \<and>
           (\<forall>x y. 0 \<le> x \<and> x < new_w - 2 \<and> 0 \<le> y \<and> y < new_h - 2 \<longrightarrow>
              interior r' ! nat y ! nat x =
                (if y < int (length (interior r)) \<and> x < int (length (interior r ! nat y))
                 then interior r ! nat y ! nat x else EMPTY))"
proof -
  let ?old = "interior r"
  let ?h = "nat (new_h - 2)" and ?w = "nat (new_w - 2)"
  let ?fresh = "replicate ?h (replicate ?w EMPTY)"
  let ?m = "nat (min (int (length ?old)) (new_h - 2))"
  define k where "k = (if ?m = 0 then 0 else nat (min (int (length (?old ! 0))) (new_w - 2)))"
  let ?f = "\<lambda>y. take k (?old ! y) @ drop k (?fresh ! y)"
  let ?res = "map ?f [0..<?m] @ drop ?m ?fresh"
  have ow: "length (?old ! y) = length (?old ! 0)" if "y < length ?old" for y
    using rectangular_nth [OF assms(1) that] .
  have m_le: "?m \<le> length ?old" "?m \<le> length ?fresh" by simp_all
  have k_eq: "k = nat (min (int (length (?old ! 0))) (new_w - 2))" if "0 < ?m"
    using that unfolding k_def by presburger
  have k_le: "\<forall>y<?m. k \<le> length (?old ! y) \<and> k \<le> length (?fresh ! y)"
  proof (intro allI impI)
    fix y assume y: "y < ?m"
    then have yl: "y < length ?old" by linarith
    have l1: "length (?old ! y) = length (?old ! 0)" using yl by (rule ow)
    have l2: "?fresh ! y = replicate ?w EMPTY" using y by simp
    from y have "0 < ?m" by linarith
    then have l3: "k = nat (min (int (length (?old ! 0))) (new_w - 2))" by (rule k_eq)
    show "k \<le> length (?old ! y) \<and> k \<le> length (?fresh ! y)"
      unfolding l1 l2 l3 by (simp add: min_def nat_le_iff)
  qed
  have kk: "0 < ?m \<longrightarrow> nat (min (int (length (?old ! 0))) (new_w - 2)) = k"
    unfolding k_def by presburger
  have loop: "resize_copy_rows ?old (new_w - 2) ?fresh (map int [0..<?m]) = Inr ?res"
    using resize_copy_rows_prefix [OF m_le k_le kk] .
  have rs: "resize r new_w new_h =
              Inr (r\<lparr>width := new_w, height := new_h, interior := ?res\<rparr>)"
    unfolding resize_def Let_def fresh_rows using loop by (simp add: py_range_nat)
  have len: "int (length ?res) = new_h - 2" using assms(3) by simp
  have rowlen: "\<forall>rw \<in> set ?res. int (length rw) = new_w - 2"
  proof
    fix rw assume "rw \<in> set ?res"
    then consider y where "y < ?m" "rw = ?f y" | "rw \<in> set (drop ?m ?fresh)" by auto
    then show "int (length rw) = new_w - 2"
    proof cases
      case 1
      then have a: "k \<le> length (?old ! y)" "k \<le> length (?fresh ! y)"
        using k_le by simp_all
      from 1 have b: "?fresh ! y = replicate ?w EMPTY" by simp
      from a(2) b have c: "k \<le> ?w" by simp
      show ?thesis unfolding 1(2) b using a(1) c assms(2) by simp
    next
      case 2
      then have "rw \<in> set ?fresh" by (rule in_set_dropD)
      then show ?thesis using assms(2) by simp
    qed
  qed
  have cells: "\<forall>x y. 0 \<le> x \<and> x < new_w - 2 \<and> 0 \<le> y \<and> y < new_h - 2 \<longrightarrow>
              ?res ! nat y ! nat x =
                (if y < int (length ?old) \<and> x < int (length (?old ! nat y))
                 then ?old ! nat y ! nat x else EMPTY)"
  proof (intro allI impI)
    fix x y assume xy: "0 \<le> x \<and> x < new_w - 2 \<and> 0 \<le> y \<and> y < new_h - 2"
    show "?res ! nat y ! nat x =
                (if y < int (length ?old) \<and> x < int (length (?old ! nat y))
                 then ?old ! nat y ! nat x else EMPTY)"
    proof (cases "y < int (length ?old)")
      case True
      have yl: "nat y < length ?old" using True xy by linarith
      have ym: "nat y < ?m" using True xy by arith
      have yh: "nat y < length ?fresh" using xy by simp
      have r1: "?res ! nat y = ?f (nat y)"
        using nth_map_upt_drop [OF m_le(2) yh, of ?f] ym by (simp only: if_True)
      have fr: "?fresh ! nat y = replicate ?w EMPTY" using xy by simp
      have kl: "k \<le> length (?old ! nat y)" using k_le ym by blast
      from ym have "0 < ?m" by linarith
      then have "k = nat (min (int (length (?old ! 0))) (new_w - 2))" by (rule k_eq)
      then have kv: "k = nat (min (int (length (?old ! nat y))) (new_w - 2))"
        using ow [OF yl] by simp
      show ?thesis
      proof (cases "x < int (length (?old ! nat y))")
        case True
        then have "nat x < k" using xy kv by arith
        then show ?thesis using True \<open>y < int (length ?old)\<close> r1 kl by (simp add: nth_append)
      next
        case False
        then have nk: "\<not> nat x < k" using xy kv by arith
        have xw: "nat x < ?w" using xy by linarith
        have kt: "length (take k (?old ! nat y)) = k" using kl by simp
        have "?f (nat y) ! nat x = drop k (replicate ?w EMPTY) ! (nat x - k)"
          unfolding fr using nk kt by (simp only: nth_append if_False)
        also have "\<dots> = EMPTY"
        proof -
          have "nat x - k < ?w - k" using nk xw by linarith
          then show ?thesis by (simp only: drop_replicate nth_replicate)
        qed
        finally show ?thesis using False r1 by simp
      qed
    next
      case False
      then have ym: "\<not> nat y < ?m" using xy by arith
      have yh: "nat y < length ?fresh" using xy by simp
      have "?res ! nat y = ?fresh ! nat y"
        using nth_map_upt_drop [OF m_le(2) yh, of ?f] ym by (simp only: if_False)
      also have "\<dots> = replicate ?w EMPTY" using xy by simp
      finally have "?res ! nat y ! nat x = EMPTY" using xy by simp
      then show ?thesis using False by simp
    qed
  qed
  show ?thesis
    using rs len rowlen cells by simp
qed

text \<open>
  Claim C7, as the code has it. For a room whose stored interior is rectangular (every
  row as long as the first) and new dimensions \<open>new_w, new_h \<ge> 2\<close>, \<open>resize\<close> returns
  without raising; the new interior has exactly \<open>new_h - 2\<close> rows of \<open>new_w - 2\<close> tiles;
  every cell inside the rectangle common to the stored interior (its actual rows and
  columns) and the new interior keeps its tile, and every other cell of the new interior
  is \<open>EMPTY\<close>. The identifier, exits and theme are untouched. When the room meets the
  dimension invariant the stored interior is \<open>height - 2\<close> by \<open>width - 2\<close>, and the common
  rectangle is the one of the old and new dimensions.
\<close>

theorem resize_preserves_overlap:
  assumes "rectangular (interior r)" and "2 \<le> new_w" and "2 \<le> new_h"
  shows "\<exists>r'. resize r new_w new_h = Inr r' \<and>
           width r' = new_w \<and> height r' = new_h \<and>
           id_room r' = id_room r \<and> exits r' = exits r \<and> theme r' = theme r \<and>
           int (length (interior r')) = new_h - 2 \<and>
           (\<forall>rw \<in> set (interior r'). int (length rw) = new_w - 2) \<and>
           (\<forall>x y. 0 \<le> x \<and> x < new_w - 2 \<and> 0 \<le> y \<and> y < new_h - 2 \<longrightarrow>
              interior r' ! nat y ! nat x =
                (if y < int (length (interior r)) \<and> x < int (length (interior r ! nat y))
                 then interior r ! nat y ! nat x else EMPTY)) \<and>
           (room_ok r \<longrightarrow>
              (\<forall>x y. 0 \<le> x \<and> x < new_w - 2 \<and> 0 \<le> y \<and> y < new_h - 2 \<longrightarrow>
                 interior r' ! nat y ! nat x =
                   (if x < width r - 2 \<and> y < height r - 2 then interior r ! nat y ! nat x
                    else EMPTY)))"
proof -
  obtain r' where r': "resize r new_w new_h = Inr r'"
    "width r' = new_w" "height r' = new_h"
    "id_room r' = id_room r" "exits r' = exits r" "theme r' = theme r"
    "int (length (interior r')) = new_h - 2"
    "\<forall>rw \<in> set (interior r'). int (length rw) = new_w - 2"
    and cells: "\<forall>x y. 0 \<le> x \<and> x < new_w - 2 \<and> 0 \<le> y \<and> y < new_h - 2 \<longrightarrow>
              interior r' ! nat y ! nat x =
                (if y < int (length (interior r)) \<and> x < int (length (interior r ! nat y))
                 then interior r ! nat y ! nat x else EMPTY)"
    using resize_rectangular [OF assms] by blast
  have ok: "interior r' ! nat y ! nat x =
                   (if x < width r - 2 \<and> y < height r - 2 then interior r ! nat y ! nat x
                    else EMPTY)"
    if rk: "room_ok r" and xy: "0 \<le> x \<and> x < new_w - 2 \<and> 0 \<le> y \<and> y < new_h - 2" for x y
  proof -
    from rk have oh: "int (length (interior r)) = height r - 2"
      and ow: "\<forall>y<length (interior r). int (length (interior r ! y)) = width r - 2"
      by (simp_all add: room_ok_def list_all_length)
    have c: "interior r' ! nat y ! nat x =
                (if y < int (length (interior r)) \<and> x < int (length (interior r ! nat y))
                 then interior r ! nat y ! nat x else EMPTY)"
      using cells xy by blast
    show ?thesis
    proof (cases "y < height r - 2")
      case True
      then have "nat y < length (interior r)" using oh xy by linarith
      then have "int (length (interior r ! nat y)) = width r - 2" using ow by blast
      then show ?thesis using c True oh by simp
    next
      case False
      then show ?thesis using c oh by simp
    qed
  qed
  show ?thesis
    using r' cells ok by (intro exI [of _ r']) blast
qed

theorem resize_ragged_counterexample:
  "2 \<le> width (Room_init 1 4 4\<lparr>interior := [[1, 2], [3]]\<rparr>) \<and>
   2 \<le> height (Room_init 1 4 4\<lparr>interior := [[1, 2], [3]]\<rparr>) \<and>
   resize (Room_init 1 4 4\<lparr>interior := [[1, 2], [3]]\<rparr>) 4 4 = Inl IndexError"
  by (simp add: resize_def Room_init_def py_range_def py_index_def py_setitem_def
      EMPTY_def upto.simps)

theorem resize_preserves_overlap_witness:
  "rectangular (interior (Room_init 1 9 9\<lparr>interior := [[1, 2, 0], [0, 8, 9]]\<rparr>)) \<and>
   (2::int) \<le> 4 \<and> (2::int) \<le> 5 \<and>
   resize (Room_init 1 9 9\<lparr>interior := [[1, 2, 0], [0, 8, 9]]\<rparr>) 4 5 =
     Inr (Room_init 1 4 5\<lparr>interior := [[1, 2], [0, 8], [0, 0]]\<rparr>)"
proof -
  let ?r = "Room_init 1 9 9\<lparr>interior := [[1, 2, 0], [0, 8, 9]]\<rparr>"
  have h: "rectangular (interior ?r)" by (simp add: rectangular_def)
  have "\<exists>r'. resize ?r 4 5 = Inr r' \<and> width r' = 4"
    using resize_preserves_overlap [OF h, of 4 5] by auto
  then show ?thesis
    using h by (simp add: resize_def Room_init_def py_range_def py_index_def py_setitem_def
        EMPTY_def upto.simps)
qed

section \<open>Floor layout cells\<close>

lemma dense_outside:
  "dense fl \<Longrightarrow> \<not> in_extent fl pos \<Longrightarrow> grid fl pos = None"
  by (auto simp: dense_def dom_def)

lemma clear_row_apply:
  "clear_row r n g p = (if row p = r \<and> 0 \<le> col p \<and> col p < n then Some None else g p)"
proof -
  have "fold (\<lambda>c g. g(GridPosition r c \<mapsto> None)) cs g p =
          (if row p = r \<and> col p \<in> set cs then Some None else g p)" for cs
    by (induction cs arbitrary: g) (cases p; auto)+
  then show ?thesis by (auto simp: clear_row_def py_range_def)
qed

lemma clear_column_apply:
  "clear_column c n g p = (if col p = c \<and> 0 \<le> row p \<and> row p < n then Some None else g p)"
proof -
  have "fold (\<lambda>r g. g(GridPosition r c \<mapsto> None)) rs g p =
          (if col p = c \<and> row p \<in> set rs then Some None else g p)" for rs
    by (induction rs arbitrary: g) (cases p; auto)+
  then show ?thesis by (auto simp: clear_column_def py_range_def)
qed

lemma FloorLayout_init_grid:
  "grid (FloorLayout_init r c) p =
     (if 0 \<le> row p \<and> row p < r \<and> 0 \<le> col p \<and> col p < c then Some None else None)"
proof -
  have "fold (\<lambda>rw g. clear_row rw c g) rs g p =
          (if row p \<in> set rs \<and> 0 \<le> col p \<and> col p < c then Some None else g p)" for rs g
    by (induction rs arbitrary: g) (auto simp: clear_row_apply)
  then show ?thesis by (auto simp: FloorLayout_init_def py_range_def)
qed

lemma FloorLayout_init_sel:
  "rows (FloorLayout_init r c) = r" "cols (FloorLayout_init r c) = c"
  "connections (FloorLayout_init r c) = []"
  by (simp_all add: FloorLayout_init_def)

lemma dense_init: "dense (FloorLayout_init r c)"
  unfolding dense_def in_extent_def dom_def
  by (simp add: FloorLayout_init_grid FloorLayout_init_sel)

text \<open>
  Claim C10. For a grid position without an entry in the grid, \<open>place_room\<close> returns the
  layout unchanged (grid, rows, cols and connections) and \<open>get_room_at\<close> returns
  \<^verbatim>\<open>None\<close>; neither raises. In a dense grid these are the positions outside the
  \<open>rows \<times> cols\<close> extent (\<open>dense_outside\<close>).
\<close>

theorem out_of_grid_access:
  assumes "grid fl pos = None"
  shows "place_room fl pos rid = fl \<and> get_room_at fl pos = None"
  using assms by (simp add: place_room_def get_room_at_def dom_def)

theorem out_of_grid_access_witness:
  "grid (FloorLayout_init 2 2) (GridPosition 2 0) = None \<and>
   place_room (FloorLayout_init 2 2) (GridPosition 2 0) (Some 7) = FloorLayout_init 2 2 \<and>
   get_room_at (FloorLayout_init 2 2) (GridPosition 2 0) = None"
proof -
  have h: "grid (FloorLayout_init 2 2) (GridPosition 2 0) = None"
    by (simp add: FloorLayout_init_grid)
  show ?thesis using h out_of_grid_access [OF h, of "Some 7"] by simp
qed


section \<open>Shrinking a floor layout\<close>

lemma del_cells_present:
  "distinct ps \<Longrightarrow> \<forall>p \<in> set ps. g p \<noteq> None \<Longrightarrow>
   del_cells g ps = Inr (\<lambda>p. if p \<in> set ps then None else g p)"
proof (induction ps arbitrary: g)
  case Nil
  show ?case by simp
next
  case (Cons q qs)
  from Cons.prems obtain v where v: "g q = Some v" by auto
  have "del_cells (g(q := None)) qs = Inr (\<lambda>p. if p \<in> set qs then None else (g(q := None)) p)"
    using Cons.prems by (intro Cons.IH) auto
  then show ?case using v by (auto simp: fun_eq_iff)
qed

lemma distinct_py_range: "distinct (py_range n)"
  by (simp add: py_range_def)

lemma set_py_range: "set (py_range n) = {i. 0 \<le> i \<and> i < n}"
  by (auto simp: py_range_def)

lemma remove_row_refuses:
  assumes "rows fl \<le> 1 \<or>
           (\<exists>c rid. 0 \<le> c \<and> c < cols fl \<and> grid fl (GridPosition (rows fl - 1) c) = Some (Some rid))"
  shows "remove_row fl = Inr (False, fl)"
proof (cases "rows fl \<le> 1")
  case True
  then show ?thesis by (simp add: remove_row_def)
next
  case False
  with assms obtain c rid where c: "0 \<le> c" "c < cols fl"
    "grid fl (GridPosition (rows fl - 1) c) = Some (Some rid)" by blast
  then have "list_ex (\<lambda>c. get_room_at fl (GridPosition (rows fl - 1) c) \<noteq> None) (py_range (cols fl))"
    unfolding list_ex_iff set_py_range get_room_at_def by force
  then show ?thesis by (simp add: remove_row_def)
qed

lemma remove_row_succeeds:
  assumes "1 < rows fl"
    and "\<forall>c. 0 \<le> c \<and> c < cols fl \<longrightarrow> grid fl (GridPosition (rows fl - 1) c) = Some None"
  shows "remove_row fl =
           Inr (True,
             fl\<lparr>rows := rows fl - 1,
                grid := (\<lambda>p. if row p = rows fl - 1 \<and> 0 \<le> col p \<and> col p < cols fl
                              then None else grid fl p),
                connections :=
                  filter (\<lambda>k. row (from_pos k) < rows fl - 1 \<and> row (to_pos k) < rows fl - 1)
                    (connections fl)\<rparr>)"
proof -
  let ?ps = "map (\<lambda>c. GridPosition (rows fl - 1) c) (py_range (cols fl))"
  have noex: "\<not> list_ex (\<lambda>c. get_room_at fl (GridPosition (rows fl - 1) c) \<noteq> None) (py_range (cols fl))"
    unfolding list_ex_iff set_py_range get_room_at_def using assms(2) by auto
  have d: "distinct ?ps"
    by (simp add: distinct_map distinct_py_range inj_on_def)
  have pres: "\<forall>p \<in> set ?ps. grid fl p \<noteq> None"
    using assms(2) by (auto simp: set_py_range)
  have mem: "p \<in> set ?ps \<longleftrightarrow> row p = rows fl - 1 \<and> 0 \<le> col p \<and> col p < cols fl" for p
    by (cases p) (auto simp: set_py_range)
  have "del_cells (grid fl) ?ps =
          Inr (\<lambda>p. if row p = rows fl - 1 \<and> 0 \<le> col p \<and> col p < cols fl then None else grid fl p)"
    using del_cells_present [OF d pres] mem by (simp add: fun_eq_iff)
  then show ?thesis
    using assms(1) noex by (simp add: remove_row_def Let_def)
qed

lemma remove_column_refuses:
  assumes "cols fl \<le> 1 \<or>
           (\<exists>r rid. 0 \<le> r \<and> r < rows fl \<and> grid fl (GridPosition r (cols fl - 1)) = Some (Some rid))"
  shows "remove_column fl = Inr (False, fl)"
proof (cases "cols fl \<le> 1")
  case True
  then show ?thesis by (simp add: remove_column_def)
next
  case False
  with assms obtain r rid where r: "0 \<le> r" "r < rows fl"
    "grid fl (GridPosition r (cols fl - 1)) = Some (Some rid)" by blast
  then have "list_ex (\<lambda>r. get_room_at fl (GridPosition r (cols fl - 1)) \<noteq> None) (py_range (rows fl))"
    unfolding list_ex_iff set_py_range get_room_at_def by force
  then show ?thesis by (simp add: remove_column_def)
qed

lemma remove_column_succeeds:
  assumes "1 < cols fl"
    and "\<forall>r. 0 \<le> r \<and> r < rows fl \<longrightarrow> grid fl (GridPosition r (cols fl - 1)) = Some None"
  shows "remove_column fl =
           Inr (True,
             fl\<lparr>cols := cols fl - 1,
                grid := (\<lambda>p. if col p = cols fl - 1 \<and> 0 \<le> row p \<and> row p < rows fl
                              then None else grid fl p),
                connections :=
                  filter (\<lambda>k. col (from_pos k) < cols fl - 1 \<and> col (to_pos k) < cols fl - 1)
                    (connections fl)\<rparr>)"
proof -
  let ?ps = "map (\<lambda>r. GridPosition r (cols fl - 1)) (py_range (rows fl))"
  have noex: "\<not> list_ex (\<lambda>r. get_room_at fl (GridPosition r (cols fl - 1)) \<noteq> None) (py_range (rows fl))"
    unfolding list_ex_iff set_py_range get_room_at_def using assms(2) by auto
  have d: "distinct ?ps"
    by (simp add: distinct_map distinct_py_range inj_on_def)
  have pres: "\<forall>p \<in> set ?ps. grid fl p \<noteq> None"
    using assms(2) by (auto simp: set_py_range)
  have mem: "p \<in> set ?ps \<longleftrightarrow> col p = cols fl - 1 \<and> 0 \<le> row p \<and> row p < rows fl" for p
    by (cases p) (auto simp: set_py_range)
  have "del_cells (grid fl) ?ps =
          Inr (\<lambda>p. if col p = cols fl - 1 \<and> 0 \<le> row p \<and> row p < rows fl then None else grid fl p)"
    using del_cells_present [OF d pres] mem by (simp add: fun_eq_iff)
  then show ?thesis
    using assms(1) noex by (simp add: remove_column_def Let_def)
qed

text \<open>
  Claim C3. \<open>remove_row\<close> (\<open>remove_column\<close>) returns \<^verbatim>\<open>False\<close> and the layout unchanged
  whenever \<open>rows \<le> 1\<close> (\<open>cols \<le> 1\<close>) or a cell of the bottom row (rightmost column) holds
  a room id. When the extent exceeds 1 and every boundary cell is present and empty, it
  returns \<^verbatim>\<open>True\<close>, decrements the extent by one, deletes exactly the boundary cells
  and keeps exactly the connections whose two endpoints lie below the removed index, so
  that no remaining connection references the removed row (column).
\<close>

theorem shrink_guard:
  "(rows fl \<le> 1 \<or>
      (\<exists>c rid. 0 \<le> c \<and> c < cols fl \<and> grid fl (GridPosition (rows fl - 1) c) = Some (Some rid))
    \<longrightarrow> remove_row fl = Inr (False, fl)) \<and>
   (1 < rows fl \<and>
      (\<forall>c. 0 \<le> c \<and> c < cols fl \<longrightarrow> grid fl (GridPosition (rows fl - 1) c) = Some None)
    \<longrightarrow> (\<exists>fl'. remove_row fl = Inr (True, fl') \<and>
           rows fl' = rows fl - 1 \<and> cols fl' = cols fl \<and>
           (\<forall>p. grid fl' p =
              (if row p = rows fl - 1 \<and> 0 \<le> col p \<and> col p < cols fl then None else grid fl p)) \<and>
           connections fl' =
             filter (\<lambda>k. row (from_pos k) < rows fl - 1 \<and> row (to_pos k) < rows fl - 1)
               (connections fl) \<and>
           (\<forall>k \<in> set (connections fl').
              row (from_pos k) \<noteq> rows fl - 1 \<and> row (to_pos k) \<noteq> rows fl - 1))) \<and>
   (cols fl \<le> 1 \<or>
      (\<exists>r rid. 0 \<le> r \<and> r < rows fl \<and> grid fl (GridPosition r (cols fl - 1)) = Some (Some rid))
    \<longrightarrow> remove_column fl = Inr (False, fl)) \<and>
   (1 < cols fl \<and>
      (\<forall>r. 0 \<le> r \<and> r < rows fl \<longrightarrow> grid fl (GridPosition r (cols fl - 1)) = Some None)
    \<longrightarrow> (\<exists>fl'. remove_column fl = Inr (True, fl') \<and>
           cols fl' = cols fl - 1 \<and> rows fl' = rows fl \<and>
           (\<forall>p. grid fl' p =
              (if col p = cols fl - 1 \<and> 0 \<le> row p \<and> row p < rows fl then None else grid fl p)) \<and>
           connections fl' =
             filter (\<lambda>k. col (from_pos k) < cols fl - 1 \<and> col (to_pos k) < cols fl - 1)
               (connections fl) \<and>
           (\<forall>k \<in> set (connections fl').
              col (from_pos k) \<noteq> cols fl - 1 \<and> col (to_pos k) \<noteq> cols fl - 1)))"
proof (intro conjI impI)
  assume "rows fl \<le> 1 \<or>
      (\<exists>c rid. 0 \<le> c \<and> c < cols fl \<and> grid fl (GridPosition (rows fl - 1) c) = Some (Some rid))"
  then show "remove_row fl = Inr (False, fl)" by (rule remove_row_refuses)
next
  assume a: "1 < rows fl \<and>
      (\<forall>c. 0 \<le> c \<and> c < cols fl \<longrightarrow> grid fl (GridPosition (rows fl - 1) c) = Some None)"
  show "\<exists>fl'. remove_row fl = Inr (True, fl') \<and>
           rows fl' = rows fl - 1 \<and> cols fl' = cols fl \<and>
           (\<forall>p. grid fl' p =
              (if row p = rows fl - 1 \<and> 0 \<le> col p \<and> col p < cols fl then None else grid fl p)) \<and>
           connections fl' =
             filter (\<lambda>k. row (from_pos k) < rows fl - 1 \<and> row (to_pos k) < rows fl - 1)
               (connections fl) \<and>
           (\<forall>k \<in> set (connections fl').
              row (from_pos k) \<noteq> rows fl - 1 \<and> row (to_pos k) \<noteq> rows fl - 1)"
    using remove_row_succeeds [of fl] a by auto
next
  assume "cols fl \<le> 1 \<or>
      (\<exists>r rid. 0 \<le> r \<and> r < rows fl \<and> grid fl (GridPosition r (cols fl - 1)) = Some (Some rid))"
  then show "remove_column fl = Inr (False, fl)" by (rule remove_column_refuses)
next
  assume a: "1 < cols fl \<and>
      (\<forall>r. 0 \<le> r \<and> r < rows fl \<longrightarrow> grid fl (GridPosition r (cols fl - 1)) = Some None)"
  show "\<exists>fl'. remove_column fl = Inr (True, fl') \<and>
           cols fl' = cols fl - 1 \<and> rows fl' = rows fl \<and>
           (\<forall>p. grid fl' p =
              (if col p = cols fl - 1 \<and> 0 \<le> row p \<and> row p < rows fl then None else grid fl p)) \<and>
           connections fl' =
             filter (\<lambda>k. col (from_pos k) < cols fl - 1 \<and> col (to_pos k) < cols fl - 1)
               (connections fl) \<and>
           (\<forall>k \<in> set (connections fl').
              col (from_pos k) \<noteq> cols fl - 1 \<and> col (to_pos k) \<noteq> cols fl - 1)"
    using remove_column_succeeds [of fl] a by auto
qed

theorem shrink_guard_witness:
  "remove_row (place_room (FloorLayout_init 2 2) (GridPosition 1 1) (Some 7)) =
     Inr (False, place_room (FloorLayout_init 2 2) (GridPosition 1 1) (Some 7)) \<and>
   remove_column (place_room (FloorLayout_init 2 2) (GridPosition 1 1) (Some 7)) =
     Inr (False, place_room (FloorLayout_init 2 2) (GridPosition 1 1) (Some 7)) \<and>
   (\<exists>fl'. remove_row (FloorLayout_init 2 2) = Inr (True, fl') \<and> rows fl' = 1 \<and> cols fl' = 2 \<and>
          grid fl' (GridPosition 1 0) = None \<and> grid fl' (GridPosition 0 1) = Some None) \<and>
   (\<exists>fl'. remove_column (FloorLayout_init 2 2) = Inr (True, fl') \<and> rows fl' = 2 \<and> cols fl' = 1 \<and>
          grid fl' (GridPosition 0 1) = None \<and> grid fl' (GridPosition 1 0) = Some None)"
proof -
  let ?fl0 = "FloorLayout_init 2 2"
  let ?fl1 = "place_room ?fl0 (GridPosition 1 1) (Some 7)"
  have g1: "grid ?fl1 (GridPosition 1 1) = Some (Some 7)"
    by (simp add: place_room_def FloorLayout_init_grid dom_def)
  have s1: "rows ?fl1 = 2" "cols ?fl1 = 2"
    by (simp_all add: place_room_def FloorLayout_init_sel)
  have h1: "\<exists>c rid. 0 \<le> c \<and> c < cols ?fl1 \<and> grid ?fl1 (GridPosition (rows ?fl1 - 1) c) = Some (Some rid)"
    unfolding s1 using g1 by (intro exI [of _ 1] exI [of _ 7]) simp
  have h2: "\<exists>r rid. 0 \<le> r \<and> r < rows ?fl1 \<and> grid ?fl1 (GridPosition r (cols ?fl1 - 1)) = Some (Some rid)"
    unfolding s1 using g1 by (intro exI [of _ 1] exI [of _ 7]) simp
  have h3: "1 < rows ?fl0 \<and>
      (\<forall>c. 0 \<le> c \<and> c < cols ?fl0 \<longrightarrow> grid ?fl0 (GridPosition (rows ?fl0 - 1) c) = Some None)"
    by (simp add: FloorLayout_init_grid FloorLayout_init_sel)
  have h4: "1 < cols ?fl0 \<and>
      (\<forall>r. 0 \<le> r \<and> r < rows ?fl0 \<longrightarrow> grid ?fl0 (GridPosition r (cols ?fl0 - 1)) = Some None)"
    by (simp add: FloorLayout_init_grid FloorLayout_init_sel)
  have a: "remove_row ?fl1 = Inr (False, ?fl1)" "remove_column ?fl1 = Inr (False, ?fl1)"
    using shrink_guard [of ?fl1] h1 h2 by blast+
  obtain fa where fa: "remove_row ?fl0 = Inr (True, fa)" "rows fa = rows ?fl0 - 1" "cols fa = cols ?fl0"
    "\<forall>p. grid fa p =
        (if row p = rows ?fl0 - 1 \<and> 0 \<le> col p \<and> col p < cols ?fl0 then None else grid ?fl0 p)"
    using shrink_guard [of ?fl0] h3 by blast
  obtain fb where fb: "remove_column ?fl0 = Inr (True, fb)" "cols fb = cols ?fl0 - 1" "rows fb = rows ?fl0"
    "\<forall>p. grid fb p =
        (if col p = cols ?fl0 - 1 \<and> 0 \<le> row p \<and> row p < rows ?fl0 then None else grid ?fl0 p)"
    using shrink_guard [of ?fl0] h4 by blast
  have "rows fa = 1 \<and> cols fa = 2 \<and> grid fa (GridPosition 1 0) = None \<and>
        grid fa (GridPosition 0 1) = Some None"
    using fa by (simp add: FloorLayout_init_grid FloorLayout_init_sel)
  moreover have "rows fb = 2 \<and> cols fb = 1 \<and> grid fb (GridPosition 0 1) = None \<and>
        grid fb (GridPosition 1 0) = Some None"
    using fb by (simp add: FloorLayout_init_grid FloorLayout_init_sel)
  ultimately show ?thesis using a fa(1) fb(1) by simp
qed

section \<open>Connections\<close>

lemma connects_sym: "connects a b c \<longleftrightarrow> connects b a c"
  by (auto simp: connects_def)

lemma connects_new: "connects a b \<lparr>from_pos = a, to_pos = b, door_position = d\<rparr>"
  by (simp add: connects_def)

lemma find_filter_not: "find P (filter (\<lambda>x. \<not> P x) xs) = None"
  by (induction xs) auto

lemma find_append_none: "find P xs = None \<Longrightarrow> find P (xs @ ys) = find P ys"
  by (induction xs) (auto split: if_splits)

lemma get_after_set:
  assumes "d \<noteq> NONE"
  shows "get_connection (set_connection fl a b d) a b =
           Some \<lparr>from_pos = a, to_pos = b, door_position = d\<rparr>"
    and "get_connection (set_connection fl a b d) b a =
           Some \<lparr>from_pos = a, to_pos = b, door_position = d\<rparr>"
proof -
  have n: "find (connects a b) (filter (\<lambda>c. \<not> connects a b c) (connections fl)) = None"
    by (rule find_filter_not)
  show "get_connection (set_connection fl a b d) a b =
           Some \<lparr>from_pos = a, to_pos = b, door_position = d\<rparr>"
    using assms find_append_none [OF n] connects_new
    by (simp add: get_connection_def set_connection_def Let_def)
  have cs: "connects b a = connects a b"
    using connects_sym by (auto simp: fun_eq_iff)
  show "get_connection (set_connection fl a b d) b a =
           Some \<lparr>from_pos = a, to_pos = b, door_position = d\<rparr>"
    using assms find_append_none [OF n] connects_new
    by (simp add: get_connection_def set_connection_def Let_def cs)
qed

lemma get_after_unset:
  "get_connection (set_connection fl a b NONE) a b = None"
  "get_connection (set_connection fl a b NONE) b a = None"
proof -
  have cs: "connects b a = connects a b"
    using connects_sym by (auto simp: fun_eq_iff)
  show "get_connection (set_connection fl a b NONE) a b = None"
    by (simp add: get_connection_def set_connection_def find_filter_not)
  show "get_connection (set_connection fl a b NONE) b a = None"
    by (simp add: get_connection_def set_connection_def find_filter_not cs)
qed

lemma count_after_set:
  "length (filter (connects a b) (connections (set_connection fl a b d))) =
     (if d = NONE then 0 else 1)"
  by (simp add: set_connection_def Let_def connects_new)

lemma connects_pair: "connects a b c \<longleftrightarrow> {from_pos c, to_pos c} = {a, b}"
  by (auto simp: connects_def doubleton_eq_iff)

lemma one_per_pair_set:
  assumes "one_per_pair (connections fl)"
  shows "one_per_pair (connections (set_connection fl a b d))"
proof -
  let ?e = "\<lambda>c::RoomConnection. {from_pos c, to_pos c}"
  let ?kept = "filter (\<lambda>c. \<not> connects a b c) (connections fl)"
  have dk: "distinct (map ?e ?kept)"
    using assms unfolding one_per_pair_def by (rule distinct_map_filter)
  have nk: "{a, b} \<notin> set (map ?e ?kept)"
    by (auto simp: connects_pair)
  show ?thesis
    using dk nk by (simp add: set_connection_def Let_def one_per_pair_def)
qed

text \<open>
  Claim C4. Connections are undirected. After \<open>set_connection fl a b TOP\<close> both
  \<open>get_connection a b\<close> and \<open>get_connection b a\<close> return the connection with door position
  \<open>TOP\<close>; after a following \<open>set_connection\<close> with \<open>NONE\<close>, in either orientation, both
  return \<^verbatim>\<open>None\<close>. After any \<open>set_connection fl a b d\<close> the list holds exactly one record
  joining \<open>a\<close> and \<open>b\<close> in either orientation (none when \<open>d\<close> is \<open>NONE\<close>), and a list
  with at most one record per unordered pair stays so: the two orientations never coexist.
\<close>

theorem connections_undirected:
  "get_connection (set_connection fl a b TOP) a b =
     Some \<lparr>from_pos = a, to_pos = b, door_position = TOP\<rparr> \<and>
   get_connection (set_connection fl a b TOP) b a =
     Some \<lparr>from_pos = a, to_pos = b, door_position = TOP\<rparr> \<and>
   get_connection (set_connection (set_connection fl a b TOP) a b NONE) a b = None \<and>
   get_connection (set_connection (set_connection fl a b TOP) a b NONE) b a = None \<and>
   get_connection (set_connection (set_connection fl a b TOP) b a NONE) a b = None \<and>
   get_connection (set_connection (set_connection fl a b TOP) b a NONE) b a = None \<and>
   length (filter (connects a b) (connections (set_connection fl a b d))) =
     (if d = NONE then 0 else 1) \<and>
   (one_per_pair (connections fl) \<longrightarrow>
      one_per_pair (connections (set_connection fl a b d)))"
proof -
  have t: "TOP \<noteq> NONE" by (simp add: TOP_def NONE_def)
  show ?thesis
    using get_after_set [OF t, of fl a b] get_after_unset [of "set_connection fl a b TOP"]
      count_after_set [of a b fl d] one_per_pair_set [of fl a b d]
    by simp
qed

theorem connections_undirected_witness:
  "one_per_pair (connections (FloorLayout_init 2 2)) \<and>
   one_per_pair (connections (set_connection (FloorLayout_init 2 2)
       (GridPosition 0 0) (GridPosition 0 1) MID)) \<and>
   get_connection (set_connection (FloorLayout_init 2 2) (GridPosition 0 0) (GridPosition 0 1) TOP)
       (GridPosition 0 1) (GridPosition 0 0) =
     Some \<lparr>from_pos = GridPosition 0 0, to_pos = GridPosition 0 1, door_position = TOP\<rparr>"
proof -
  have h: "one_per_pair (connections (FloorLayout_init 2 2))"
    by (simp add: one_per_pair_def FloorLayout_init_def)
  show ?thesis
    using h connections_undirected [of "FloorLayout_init 2 2" "GridPosition 0 0" "GridPosition 0 1" MID]
    by simp
qed

section \<open>Room identifiers\<close>

lemma py_max_Max: "py_max x xs = Max (insert x (set xs))"
  unfolding py_max_def
proof (induction xs arbitrary: x)
  case Nil
  show ?case by simp
next
  case (Cons y ys)
  have "Max (insert (if x < y then y else x) (set ys)) = Max (insert x (insert y (set ys)))"
  proof (cases "set ys = {}")
    case True
    then show ?thesis by (simp add: max_def)
  next
    case False
    then show ?thesis by (auto simp: max_def)
  qed
  with Cons show ?case by simp
qed

lemma next_id_nonempty:
  "rooms lv \<noteq> [] \<Longrightarrow> get_next_room_id lv = Max (id_room ` set (rooms lv)) + 1"
  by (cases "rooms lv") (simp_all add: get_next_room_id_def py_max_Max)

lemma next_id_empty: "rooms lv = [] \<Longrightarrow> get_next_room_id lv = 1"
  by (simp add: get_next_room_id_def)

lemma next_id_above: "r \<in> set (rooms lv) \<Longrightarrow> id_room r < get_next_room_id lv"
proof -
  assume r: "r \<in> set (rooms lv)"
  then have ne: "rooms lv \<noteq> []" by auto
  have "id_room r \<le> Max (id_room ` set (rooms lv))" using r by simp
  then show ?thesis using next_id_nonempty [OF ne] by simp
qed

lemma next_id_add_room:
  assumes "\<forall>r \<in> set (rooms lv). 0 < id_room r" and "0 < id_room room"
  shows "get_next_room_id lv \<le> get_next_room_id (snd (add_room lv room))"
proof (cases "list_ex (\<lambda>r. id_room r = id_room room) (rooms lv)")
  case True
  then show ?thesis by (simp add: add_room_def)
next
  case False
  let ?lv = "lv\<lparr>rooms := rooms lv @ [room]\<rparr>"
  have eq: "snd (add_room lv room) = ?lv" using False by (simp add: add_room_def)
  have n2: "get_next_room_id ?lv = Max (id_room ` set (rooms lv @ [room])) + 1"
    using next_id_nonempty [of ?lv] by simp
  show ?thesis
  proof (cases "rooms lv = []")
    case True
    then show ?thesis using assms(2) n2 eq by (simp add: next_id_empty)
  next
    case ne: False
    have "Max (id_room ` set (rooms lv)) \<le> Max (id_room ` set (rooms lv @ [room]))"
      using ne by (intro Max_mono) auto
    then show ?thesis using next_id_nonempty [OF ne] n2 eq by simp
  qed
qed

lemma next_id_remove_below_max:
  assumes "\<exists>r \<in> set (rooms lv). rid < id_room r"
  shows "get_next_room_id (remove_room lv rid) = get_next_room_id lv"
proof -
  let ?S = "id_room ` set (rooms lv)"
  let ?rs = "filter (\<lambda>r. id_room r \<noteq> rid) (rooms lv)"
  from assms obtain r where r: "r \<in> set (rooms lv)" "rid < id_room r" by blast
  have ne: "rooms lv \<noteq> []" using r by auto
  have fin: "finite ?S" "?S \<noteq> {}" using ne by simp_all
  have mx: "Max ?S \<in> ?S" using fin by (rule Max_in)
  have "rid < Max ?S" using r fin by (meson Max_ge image_eqI less_le_trans)
  then have in2: "Max ?S \<in> id_room ` set ?rs" using mx by auto
  have sub: "id_room ` set ?rs \<subseteq> ?S" by auto
  have "Max (id_room ` set ?rs) = Max ?S"
  proof (rule antisym)
    show "Max (id_room ` set ?rs) \<le> Max ?S"
      using sub in2 by (intro Max_mono) auto
    show "Max ?S \<le> Max (id_room ` set ?rs)"
      using in2 by (intro Max_ge) auto
  qed
  moreover have ne2: "?rs \<noteq> []"
  proof
    assume e: "?rs = []"
    from in2 show False unfolding e by simp
  qed
  ultimately show ?thesis
    using next_id_nonempty [OF ne] next_id_nonempty [of "remove_room lv rid"] ne2
    by (simp add: remove_room_def)
qed

lemma next_id_remove_max:
  assumes "\<forall>r \<in> set (rooms lv). 0 < id_room r" and "rooms lv \<noteq> []"
    and "rid = Max (id_room ` set (rooms lv))"
  shows "get_next_room_id (remove_room lv rid) \<le> rid \<and> rid < get_next_room_id lv"
proof -
  let ?S = "id_room ` set (rooms lv)"
  let ?rs = "filter (\<lambda>r. id_room r \<noteq> rid) (rooms lv)"
  have fin: "finite ?S" "?S \<noteq> {}" using assms(2) by simp_all
  have mx: "Max ?S \<in> ?S" using fin by (rule Max_in)
  then have pos: "0 < rid" using assms(1,3) by auto
  have before: "rid < get_next_room_id lv"
    using next_id_nonempty [OF assms(2)] assms(3) by simp
  have rr: "rooms (remove_room lv rid) = ?rs" by (simp add: remove_room_def)
  have after: "get_next_room_id (remove_room lv rid) \<le> rid"
  proof (cases "?rs = []")
    case True
    then have "get_next_room_id (remove_room lv rid) = 1"
      using next_id_empty [of "remove_room lv rid"] rr by simp
    then show ?thesis using pos by simp
  next
    case False
    have "\<forall>a \<in> id_room ` set ?rs. a < rid"
    proof
      fix a assume "a \<in> id_room ` set ?rs"
      then have "a \<in> ?S" "a \<noteq> rid" by auto
      then have "a \<le> Max ?S" using fin by simp
      then show "a < rid" using \<open>a \<noteq> rid\<close> assms(3) by simp
    qed
    moreover have "finite (id_room ` set ?rs)" by simp
    moreover have "id_room ` set ?rs \<noteq> {}"
    proof
      assume "id_room ` set ?rs = {}"
      then have "set ?rs = {}" by (simp only: image_is_empty)
      then have "?rs = []" by (simp only: set_empty)
      with False show False by contradiction
    qed
    ultimately have "Max (id_room ` set ?rs) < rid" by simp
    moreover have "get_next_room_id (remove_room lv rid) = Max (id_room ` set ?rs) + 1"
      using next_id_nonempty [of "remove_room lv rid"] rr False by simp
    ultimately show ?thesis by simp
  qed
  show ?thesis using before after by simp
qed

text \<open>
  Claim C2, as the code has it. \<open>get_next_room_id\<close> is 1 on an empty room list and
  the maximum of the present ids plus one otherwise, so it exceeds every id present. With
  positive ids it does not decrease across \<open>add_room\<close>. A \<open>remove_room\<close> of an id below
  the current maximum leaves it unchanged. With positive ids, a \<open>remove_room\<close> of the
  maximum id lowers it to at most the removed id.
\<close>

theorem next_room_id_max:
  "(rooms lv = [] \<longrightarrow> get_next_room_id lv = 1) \<and>
   (rooms lv \<noteq> [] \<longrightarrow> get_next_room_id lv = Max (id_room ` set (rooms lv)) + 1) \<and>
   (\<forall>r \<in> set (rooms lv). id_room r < get_next_room_id lv) \<and>
   ((\<forall>r \<in> set (rooms lv). 0 < id_room r) \<and> 0 < id_room room \<longrightarrow>
      get_next_room_id lv \<le> get_next_room_id (snd (add_room lv room))) \<and>
   ((\<exists>r \<in> set (rooms lv). rid < id_room r) \<longrightarrow>
      get_next_room_id (remove_room lv rid) = get_next_room_id lv) \<and>
   ((\<forall>r \<in> set (rooms lv). 0 < id_room r) \<and> rooms lv \<noteq> [] \<and>
    rid = Max (id_room ` set (rooms lv)) \<longrightarrow>
      get_next_room_id (remove_room lv rid) \<le> rid \<and> rid < get_next_room_id lv)"
  using next_id_empty [of lv] next_id_nonempty [of lv] next_id_above [of _ lv]
    next_id_add_room [of lv room] next_id_remove_below_max [of lv rid]
    next_id_remove_max [of lv rid]
  by blast

theorem next_room_id_reuse_counterexample:
  "get_next_room_id
     (snd (add_room (snd (add_room Level_init (Room_init 1 10 10))) (Room_init 2 10 10))) = 3 \<and>
   get_next_room_id
     (remove_room
        (snd (add_room (snd (add_room Level_init (Room_init 1 10 10))) (Room_init 2 10 10))) 2) = 2"
  by (simp add: get_next_room_id_def py_max_def add_room_def remove_room_def Level_init_def
      Room_init_def)

theorem next_room_id_max_witness:
  "get_next_room_id
     (snd (add_room (snd (add_room Level_init (Room_init 1 10 10))) (Room_init 3 10 10))) = 4 \<and>
   get_next_room_id
     (remove_room
        (snd (add_room (snd (add_room Level_init (Room_init 1 10 10))) (Room_init 3 10 10))) 1) = 4 \<and>
   get_next_room_id (snd (add_room Level_init (Room_init 1 10 10))) \<le>
   get_next_room_id
     (snd (add_room (snd (add_room Level_init (Room_init 1 10 10))) (Room_init 3 10 10))) \<and>
   get_next_room_id
     (remove_room
        (snd (add_room (snd (add_room Level_init (Room_init 1 10 10))) (Room_init 3 10 10))) 3) \<le> 3 \<and>
   get_next_room_id Level_init = 1"
proof -
  let ?l1 = "snd (add_room Level_init (Room_init 1 10 10))"
  let ?l2 = "snd (add_room ?l1 (Room_init 3 10 10))"
  have r0: "rooms Level_init = []" by (simp add: Level_init_def)
  have r1: "rooms ?l1 = [Room_init 1 10 10]"
    by (simp add: add_room_def Level_init_def)
  have r2: "rooms ?l2 = [Room_init 1 10 10, Room_init 3 10 10]"
    by (simp add: add_room_def Level_init_def Room_init_def)
  have ids: "id_room (Room_init 1 10 10) = 1" "id_room (Room_init 3 10 10) = 3"
    by (simp_all add: Room_init_def)
  have a: "rooms ?l2 \<noteq> []" using r2 by simp
  have b: "\<exists>r \<in> set (rooms ?l2). 1 < id_room r" unfolding r2 using ids by simp
  have c: "(\<forall>r \<in> set (rooms ?l1). 0 < id_room r) \<and> 0 < id_room (Room_init 3 10 10)"
    unfolding r1 using ids by simp
  have mx: "Max (id_room ` set (rooms ?l2)) = 3" unfolding r2 by (simp add: ids)
  have d: "(\<forall>r \<in> set (rooms ?l2). 0 < id_room r) \<and> rooms ?l2 \<noteq> [] \<and>
      3 = Max (id_room ` set (rooms ?l2))"
    unfolding mx unfolding r2 using ids by simp
  have e1: "get_next_room_id ?l2 = 4"
    using next_room_id_max [of ?l2 "Room_init 3 10 10" 1] a mx by simp
  have e2: "get_next_room_id (remove_room ?l2 1) = 4"
    using next_room_id_max [of ?l2 "Room_init 3 10 10" 1] b e1 by simp
  have e3: "get_next_room_id ?l1 \<le> get_next_room_id ?l2"
    using next_room_id_max [of ?l1 "Room_init 3 10 10" 1] c by blast
  have e4: "get_next_room_id (remove_room ?l2 3) \<le> 3"
    using next_room_id_max [of ?l2 "Room_init 3 10 10" 3] d by blast
  have e5: "get_next_room_id Level_init = 1"
    using next_room_id_max [of Level_init "Room_init 3 10 10" 1] r0 by blast
  show ?thesis using e1 e2 e3 e4 e5 by (intro conjI)
qed

section \<open>Layout resequencing\<close>

lemma length_resequence: "length (resequence les) = length les"
  by (simp add: resequence_def)

lemma resequence_nth:
  "i < length les \<Longrightarrow> resequence les ! i = (les ! i)\<lparr>position := int i\<rparr>"
  by (simp add: resequence_def nth_enumerate_eq)

lemma resequence_positions: "map position (resequence les) = py_range (int (length les))"
  unfolding py_range_nat
  by (rule nth_equalityI) (simp_all add: length_resequence resequence_nth)

lemma resequence_room_ids: "map room_id (resequence les) = map room_id les"
  by (rule nth_equalityI) (simp_all add: length_resequence resequence_nth)

lemma sequential_resequence: "sequential (resequence les)"
  by (simp add: sequential_def resequence_positions length_resequence)

lemma sequential_sorted: "sequential les \<Longrightarrow> sorted (map position les)"
  by (simp add: sequential_def py_range_def)

lemma sorted_filter_positions:
  "sorted (map position les) \<Longrightarrow> sorted (map position (filter P les))"
  by (induction les) auto

lemma py_range_Suc: "py_range (1 + int n) = py_range (int n) @ [int n]"
proof -
  have "nat (1 + int n) = Suc n" by simp
  then show ?thesis unfolding py_range_nat by simp
qed

lemma sequential_mset:
  "sequential les \<Longrightarrow> mset (map position les) = mset (py_range (int (length les)))"
  by (simp add: sequential_def)

lemma insert_at:
  assumes "n \<le> length xs"
  shows "(take n xs @ e # drop n xs) ! n = e"
    and "take n (take n xs @ e # drop n xs) @ drop (Suc n) (take n xs @ e # drop n xs) = xs"
  using assms by (simp_all add: nth_append min_def)

lemma insert_length: "length (take n xs @ e # drop n xs) = Suc (length xs)"
  by simp

lemma move_in_bounds:
  assumes "0 \<le> old" and "old < int (length (layout lv))"
    and "0 \<le> new" and "new < int (length (layout lv))"
  shows "sequential (layout (move_in_layout lv old new))"
    and "length (layout (move_in_layout lv old new)) = length (layout lv)"
    and "room_id (layout (move_in_layout lv old new) ! nat new) = room_id (layout lv ! nat old)"
    and "map room_id (take (nat new) (layout (move_in_layout lv old new)) @
                      drop (Suc (nat new)) (layout (move_in_layout lv old new))) =
         map room_id (take (nat old) (layout lv) @ drop (Suc (nat old)) (layout lv))"
proof -
  let ?l = "layout lv"
  define popped where "popped = take (nat old) ?l @ drop (Suc (nat old)) ?l"
  define ins where "ins = take (nat new) popped @ (?l ! nat old) # drop (nat new) popped"
  have o: "nat old < length ?l" and n: "nat new < length ?l" using assms by linarith+
  have lp: "length popped = length ?l - 1" unfolding popped_def using o by simp
  have np: "nat new \<le> length popped" using n lp by linarith
  have "length ins = Suc (length popped)" unfolding ins_def by (rule insert_length)
  then have li: "length ins = length ?l" unfolding lp using o by linarith
  have mv: "layout (move_in_layout lv old new) = resequence ins"
    using assms by (simp add: move_in_layout_def Let_def ins_def popped_def)
  show "sequential (layout (move_in_layout lv old new))"
    unfolding mv by (rule sequential_resequence)
  show "length (layout (move_in_layout lv old new)) = length ?l"
    unfolding mv length_resequence by (rule li)
  have ni: "nat new < length ins" using li n by simp
  have "room_id (resequence ins ! nat new) = room_id (ins ! nat new)"
    using resequence_nth [OF ni] by simp
  also have "\<dots> = room_id (?l ! nat old)"
    unfolding ins_def using insert_at(1) [OF np] by simp
  finally show "room_id (layout (move_in_layout lv old new) ! nat new) = room_id (?l ! nat old)"
    unfolding mv .
  have "map room_id (take (nat new) (resequence ins) @ drop (Suc (nat new)) (resequence ins)) =
          take (nat new) (map room_id (resequence ins)) @
          drop (Suc (nat new)) (map room_id (resequence ins))"
    by (simp add: take_map drop_map)
  also have "\<dots> = map room_id (take (nat new) ins @ drop (Suc (nat new)) ins)"
    unfolding resequence_room_ids by (simp add: take_map drop_map)
  also have "\<dots> = map room_id popped"
    unfolding ins_def using insert_at(2) [OF np] by simp
  finally show "map room_id (take (nat new) (layout (move_in_layout lv old new)) @
                      drop (Suc (nat new)) (layout (move_in_layout lv old new))) =
         map room_id (take (nat old) ?l @ drop (Suc (nat old)) ?l)"
    unfolding mv popped_def .
qed

lemma move_out_of_bounds:
  "\<not> (0 \<le> old \<and> old < int (length (layout lv)) \<and> 0 \<le> new \<and> new < int (length (layout lv))) \<Longrightarrow>
   move_in_layout lv old new = lv"
  by (auto simp: move_in_layout_def)

lemma move_sequential:
  "sequential (layout lv) \<Longrightarrow> sequential (layout (move_in_layout lv old new))"
  using move_in_bounds(1) [of old lv new] move_out_of_bounds [of old lv new] by metis

lemma remove_keeps_order:
  assumes "sequential les"
  shows "map room_id (resequence (sort_key position (filter P les))) = map room_id (filter P les)"
proof -
  have "sorted (map position (filter P les))"
    using assms by (intro sorted_filter_positions sequential_sorted)
  then have "sort_key position (filter P les) = filter P les"
    by (rule sort_key_id_if_sorted)
  then show ?thesis by (simp add: resequence_room_ids)
qed

lemma sequential_init: "sequential (layout Level_init)"
  by (simp add: sequential_def Level_init_def py_range_def)

lemma sequential_add_room:
  "sequential (layout lv) \<Longrightarrow> sequential (layout (snd (add_room lv room)))"
  by (simp add: add_room_def)

lemma sequential_add_to_layout:
  "sequential (layout lv) \<Longrightarrow> sequential (layout (snd (add_to_layout lv rid)))"
  by (auto simp: add_to_layout_def sequential_def py_range_Suc)

text \<open>
  Claim C6, as the code has it. After \<open>remove_from_layout\<close> and after \<open>remove_room\<close>,
  from any state, and after \<open>move_in_layout\<close> with both indices within the current bounds,
  the positions of the layout entries are exactly \<open>0, \<dots>, len - 1\<close>. A removal orders the
  survivors by their previous position (ties in list order); an in-bounds move puts the
  moved entry at the new index and keeps the relative order of the others.
  \<open>move_in_layout\<close> with an index out of bounds changes nothing, so the positions are
  \<open>0, \<dots>, len - 1\<close> afterwards when they were before. In \<open>Level_init\<close> the entry at
  list index \<open>i\<close> has position \<open>i\<close>, and \<open>add_room\<close>, \<open>add_to_layout\<close> and
  \<open>move_in_layout\<close> keep that; on such a layout a removal keeps the list order of the
  survivors. A level loaded by \<open>from_json\<close> has the positions of its file, as the
  counterexample below shows.
\<close>

theorem layout_resequenced:
  "mset (map position (layout (remove_from_layout lv p))) =
     mset (py_range (int (length (layout (remove_from_layout lv p))))) \<and>
   map room_id (layout (remove_from_layout lv p)) =
     map room_id (sort_key position (filter (\<lambda>le. position le \<noteq> p) (layout lv))) \<and>
   mset (map position (layout (remove_room lv rid))) =
     mset (py_range (int (length (layout (remove_room lv rid))))) \<and>
   map room_id (layout (remove_room lv rid)) =
     map room_id (sort_key position (filter (\<lambda>le. room_id le \<noteq> rid) (layout lv))) \<and>
   (0 \<le> old \<and> old < int (length (layout lv)) \<and> 0 \<le> new \<and> new < int (length (layout lv)) \<longrightarrow>
      mset (map position (layout (move_in_layout lv old new))) =
        mset (py_range (int (length (layout (move_in_layout lv old new))))) \<and>
      length (layout (move_in_layout lv old new)) = length (layout lv) \<and>
      room_id (layout (move_in_layout lv old new) ! nat new) = room_id (layout lv ! nat old) \<and>
      map room_id (take (nat new) (layout (move_in_layout lv old new)) @
                   drop (Suc (nat new)) (layout (move_in_layout lv old new))) =
      map room_id (take (nat old) (layout lv) @ drop (Suc (nat old)) (layout lv))) \<and>
   (\<not> (0 \<le> old \<and> old < int (length (layout lv)) \<and> 0 \<le> new \<and> new < int (length (layout lv))) \<longrightarrow>
      move_in_layout lv old new = lv) \<and>
   (mset (map position (layout lv)) = mset (py_range (int (length (layout lv)))) \<longrightarrow>
      mset (map position (layout (move_in_layout lv old new))) =
        mset (py_range (int (length (layout (move_in_layout lv old new)))))) \<and>
   sequential (layout Level_init) \<and>
   (sequential (layout lv) \<longrightarrow>
      sequential (layout (snd (add_room lv room))) \<and>
      sequential (layout (snd (add_to_layout lv rid))) \<and>
      sequential (layout (move_in_layout lv old new)) \<and>
      mset (map position (layout (move_in_layout lv old new))) =
        mset (py_range (int (length (layout (move_in_layout lv old new))))) \<and>
      map room_id (layout (remove_from_layout lv p)) =
        map room_id (filter (\<lambda>le. position le \<noteq> p) (layout lv)) \<and>
      map room_id (layout (remove_room lv rid)) =
        map room_id (filter (\<lambda>le. room_id le \<noteq> rid) (layout lv)))"
proof -
  let ?inb = "0 \<le> old \<and> old < int (length (layout lv)) \<and> 0 \<le> new \<and> new < int (length (layout lv))"
  have a: "mset (map position (layout (remove_from_layout lv p))) =
     mset (py_range (int (length (layout (remove_from_layout lv p)))))"
    by (intro sequential_mset) (simp add: remove_from_layout_def sequential_resequence)
  have b: "map room_id (layout (remove_from_layout lv p)) =
     map room_id (sort_key position (filter (\<lambda>le. position le \<noteq> p) (layout lv)))"
    by (simp add: remove_from_layout_def resequence_room_ids)
  have c: "mset (map position (layout (remove_room lv rid))) =
     mset (py_range (int (length (layout (remove_room lv rid)))))"
    by (intro sequential_mset) (simp add: remove_room_def sequential_resequence)
  have d: "map room_id (layout (remove_room lv rid)) =
     map room_id (sort_key position (filter (\<lambda>le. room_id le \<noteq> rid) (layout lv)))"
    by (simp add: remove_room_def resequence_room_ids)
  have m: "mset (map position (layout (move_in_layout lv old new))) =
        mset (py_range (int (length (layout (move_in_layout lv old new))))) \<and>
      length (layout (move_in_layout lv old new)) = length (layout lv) \<and>
      room_id (layout (move_in_layout lv old new) ! nat new) = room_id (layout lv ! nat old) \<and>
      map room_id (take (nat new) (layout (move_in_layout lv old new)) @
                   drop (Suc (nat new)) (layout (move_in_layout lv old new))) =
      map room_id (take (nat old) (layout lv) @ drop (Suc (nat old)) (layout lv))"
    if i: ?inb
  proof -
    from i have i1: "0 \<le> old" and i2: "old < int (length (layout lv))"
      and i3: "0 \<le> new" and i4: "new < int (length (layout lv))" by simp_all
    show ?thesis
      using move_in_bounds [OF i1 i2 i3 i4] sequential_mset by blast
  qed
  have n: "move_in_layout lv old new = lv" if "\<not> ?inb"
    using that by (rule move_out_of_bounds)
  have s: "sequential (layout (snd (add_room lv room))) \<and>
      sequential (layout (snd (add_to_layout lv rid))) \<and>
      sequential (layout (move_in_layout lv old new)) \<and>
      mset (map position (layout (move_in_layout lv old new))) =
        mset (py_range (int (length (layout (move_in_layout lv old new))))) \<and>
      map room_id (layout (remove_from_layout lv p)) =
        map room_id (filter (\<lambda>le. position le \<noteq> p) (layout lv)) \<and>
      map room_id (layout (remove_room lv rid)) =
        map room_id (filter (\<lambda>le. room_id le \<noteq> rid) (layout lv))"
    if sq: "sequential (layout lv)"
  proof (intro conjI)
    show "sequential (layout (snd (add_room lv room)))" using sq by (rule sequential_add_room)
    show "sequential (layout (snd (add_to_layout lv rid)))" using sq by (rule sequential_add_to_layout)
    show ms: "sequential (layout (move_in_layout lv old new))" using sq by (rule move_sequential)
    show "mset (map position (layout (move_in_layout lv old new))) =
        mset (py_range (int (length (layout (move_in_layout lv old new)))))"
      using ms by (rule sequential_mset)
    show "map room_id (layout (remove_from_layout lv p)) =
        map room_id (filter (\<lambda>le. position le \<noteq> p) (layout lv))"
      using remove_keeps_order [OF sq] by (simp add: remove_from_layout_def)
    show "map room_id (layout (remove_room lv rid)) =
        map room_id (filter (\<lambda>le. room_id le \<noteq> rid) (layout lv))"
      using remove_keeps_order [OF sq] by (simp add: remove_room_def)
  qed
  have q: "mset (map position (layout (move_in_layout lv old new))) =
        mset (py_range (int (length (layout (move_in_layout lv old new)))))"
    if e: "mset (map position (layout lv)) = mset (py_range (int (length (layout lv))))"
  proof (cases ?inb)
    case True
    then show ?thesis using m by blast
  next
    case False
    then have "move_in_layout lv old new = lv" by (rule n)
    then show ?thesis using e by simp
  qed
  show ?thesis
    using a b c d m n q s sequential_init by (intro conjI impI) blast+
qed

theorem layout_resequenced_counterexample:
  \<open>from_json ''{"layout": [{"room_id": 1, "position": 5}, {"room_id": 1, "position": 7}]}'' =
     Inr (Level_init\<lparr>layout := [\<lparr>room_id = 1, position = 5\<rparr>, \<lparr>room_id = 1, position = 7\<rparr>]\<rparr>) \<and>
   move_in_layout
     (Level_init\<lparr>layout := [\<lparr>room_id = 1, position = 5\<rparr>, \<lparr>room_id = 1, position = 7\<rparr>]\<rparr>) 9 0 =
     Level_init\<lparr>layout := [\<lparr>room_id = 1, position = 5\<rparr>, \<lparr>room_id = 1, position = 7\<rparr>]\<rparr> \<and>
   map position (layout (move_in_layout
     (Level_init\<lparr>layout := [\<lparr>room_id = 1, position = 5\<rparr>, \<lparr>room_id = 1, position = 7\<rparr>]\<rparr>) 9 0)) =
     [5, 7] \<and>
   mset [5, 7] \<noteq> mset (py_range 2)\<close>
proof -
  have a: \<open>from_json ''{"layout": [{"room_id": 1, "position": 5}, {"room_id": 1, "position": 7}]}'' =
     Inr (Level_init\<lparr>layout := [\<lparr>room_id = 1, position = 5\<rparr>, \<lparr>room_id = 1, position = 7\<rparr>]\<rparr>)\<close>
  proof -
    have jl: \<open>json_loads ''{"layout": [{"room_id": 1, "position": 5}, {"room_id": 1, "position": 7}]}'' =
        Inr (PDict [(''layout'', PList [PDict [(''room_id'', PInt 1), (''position'', PInt 5)],
                                        PDict [(''room_id'', PInt 1), (''position'', PInt 7)]])])\<close>
      by code_simp
    show ?thesis
      unfolding from_json_def jl
      by (simp add: rbind_def as_dict_def dict_get_def as_list_def LayoutEntry_from_dict_def
          dict_item_def as_int_def Level_init_def)
  qed
  have b: "move_in_layout
     (Level_init\<lparr>layout := [\<lparr>room_id = 1, position = 5\<rparr>, \<lparr>room_id = 1, position = 7\<rparr>]\<rparr>) 9 0 =
     Level_init\<lparr>layout := [\<lparr>room_id = 1, position = 5\<rparr>, \<lparr>room_id = 1, position = 7\<rparr>]\<rparr>"
    by (simp add: move_in_layout_def)
  have c: "mset [5, 7] \<noteq> mset (py_range 2)"
  proof
    assume "mset [5, 7] = mset (py_range 2)"
    then have "set [5, 7] = set (py_range 2)" by (rule mset_eq_setD)
    moreover have "(5::int) \<in> set [5, 7]" by simp
    ultimately have "(5::int) \<in> set (py_range 2)" by (simp only:)
    then show False by (simp add: py_range_def upto.simps)
  qed
  show ?thesis unfolding b using a c by simp
qed

theorem layout_resequenced_witness:
  "sequential (layout (snd (add_to_layout (snd (add_to_layout
      (snd (add_room (snd (add_room Level_init (Room_init 1 10 10))) (Room_init 2 10 10))) 1)) 2))) \<and>
   map room_id (layout (remove_from_layout (snd (add_to_layout (snd (add_to_layout
      (snd (add_room (snd (add_room Level_init (Room_init 1 10 10))) (Room_init 2 10 10))) 1)) 2)) 0)) =
     [2] \<and>
   mset (map position (layout (move_in_layout (snd (add_to_layout (snd (add_to_layout
      (snd (add_room (snd (add_room Level_init (Room_init 1 10 10))) (Room_init 2 10 10))) 1)) 2)) 0 1))) =
     mset [0, 1] \<and>
   room_id (layout (move_in_layout (snd (add_to_layout (snd (add_to_layout
      (snd (add_room (snd (add_room Level_init (Room_init 1 10 10))) (Room_init 2 10 10))) 1)) 2)) 0 1) ! 1) = 1 \<and>
   move_in_layout (snd (add_to_layout (snd (add_to_layout
      (snd (add_room (snd (add_room Level_init (Room_init 1 10 10))) (Room_init 2 10 10))) 1)) 2)) 5 0 =
     snd (add_to_layout (snd (add_to_layout
      (snd (add_room (snd (add_room Level_init (Room_init 1 10 10))) (Room_init 2 10 10))) 1)) 2)"
proof -
  let ?L = "snd (add_to_layout (snd (add_to_layout
      (snd (add_room (snd (add_room Level_init (Room_init 1 10 10))) (Room_init 2 10 10))) 1)) 2)"
  have l: "layout ?L = [\<lparr>room_id = 1, position = 0\<rparr>, \<lparr>room_id = 2, position = 1\<rparr>]"
    by (simp add: add_to_layout_def add_room_def Level_init_def Room_init_def)
  have pr: "py_range 2 = [0, 1]" by (simp add: py_range_def upto.simps)
  have h: "sequential (layout ?L)" unfolding l by (simp add: sequential_def pr)
  have i: "0 \<le> (0::int) \<and> 0 < int (length (layout ?L)) \<and> 0 \<le> (1::int) \<and> 1 < int (length (layout ?L))"
    unfolding l by simp
  have o: "\<not> (0 \<le> (5::int) \<and> 5 < int (length (layout ?L)) \<and> 0 \<le> (0::int) \<and> 0 < int (length (layout ?L)))"
    unfolding l by simp
  note t1 = layout_resequenced [of ?L 0 2 0 1 "Room_init 1 10 10"]
  note t2 = layout_resequenced [of ?L 0 2 5 0 "Room_init 1 10 10"]
  have a: "map room_id (layout (remove_from_layout ?L 0)) =
      map room_id (filter (\<lambda>le. position le \<noteq> 0) (layout ?L))"
    using t1 h by blast
  have b: "mset (map position (layout (move_in_layout ?L 0 1))) =
      mset (py_range (int (length (layout (move_in_layout ?L 0 1)))))"
    and b2: "length (layout (move_in_layout ?L 0 1)) = length (layout ?L)"
    and c: "room_id (layout (move_in_layout ?L 0 1) ! nat 1) = room_id (layout ?L ! nat 0)"
    using t1 i by blast+
  have d: "move_in_layout ?L 5 0 = ?L" using t2 o by blast
  have a': "map room_id (layout (remove_from_layout ?L 0)) = [2]"
    unfolding a l by simp
  have b': "mset (map position (layout (move_in_layout ?L 0 1))) = mset [0, 1]"
    unfolding b b2 l by (simp add: pr)
  have c': "room_id (layout (move_in_layout ?L 0 1) ! 1) = 1"
    using c unfolding l by simp
  show ?thesis using h a' b' c' d by (intro conjI)
qed

section \<open>Spawn validation\<close>

lemma filter_enumerate_index:
  "map fst (filter (\<lambda>(i, t). P t) (enumerate 0 xs)) = filter (\<lambda>i. P (xs ! i)) [0..<length xs]"
proof (induction xs rule: rev_induct)
  case Nil
  show ?case by simp
next
  case (snoc x xs)
  have e: "enumerate 0 (xs @ [x]) = enumerate 0 xs @ [(length xs, x)]"
    by (simp add: enumerate_append_eq)
  have f: "filter (\<lambda>i. P ((xs @ [x]) ! i)) [0..<length xs] = filter (\<lambda>i. P (xs ! i)) [0..<length xs]"
    by (rule filter_cong) (simp_all add: nth_append)
  show ?case unfolding e using snoc f by simp
qed

lemma scan_pairs:
  "fold (\<lambda>(x, tile_id) (spawn_count, spawn_locations).
             if tile_id = SPAWN
             then (spawn_count + 1, spawn_locations @ [spawn_location rid x y])
             else (spawn_count, spawn_locations)) ps (cnt, locs) =
     (cnt + length (filter (\<lambda>(x, t). t = SPAWN) ps),
      locs @ map (\<lambda>x. spawn_location rid x y) (map fst (filter (\<lambda>(x, t). t = SPAWN) ps)))"
  by (induction ps arbitrary: cnt locs) auto

lemma scan_row_eq:
  "scan_row rid y rw (cnt, locs) =
     (cnt + length (row_occ rw), locs @ map (\<lambda>x. spawn_location rid x y) (row_occ rw))"
proof -
  have l: "length (filter (\<lambda>(x, t). t = SPAWN) (enumerate 0 rw)) = length (row_occ rw)"
    using filter_enumerate_index [of "\<lambda>t. t = SPAWN" rw]
    by (metis length_map row_occ_def)
  show ?thesis
    unfolding scan_row_def scan_pairs l
    using filter_enumerate_index [of "\<lambda>t. t = SPAWN" rw] by (simp add: row_occ_def)
qed


lemma rows_occ_snoc:
  "rows_occ rid (rws @ [rw]) = rows_occ rid rws @ map (\<lambda>x. (rid, x, length rws)) (row_occ rw)"
proof -
  have m: "map (\<lambda>y. map (\<lambda>x. (rid, x, y)) (row_occ ((rws @ [rw]) ! y))) [0..<length rws] =
        map (\<lambda>y. map (\<lambda>x. (rid, x, y)) (row_occ (rws ! y))) [0..<length rws]"
    by (rule map_cong) (simp_all add: nth_append)
  have "rows_occ rid (rws @ [rw]) =
          concat (map (\<lambda>y. map (\<lambda>x. (rid, x, y)) (row_occ ((rws @ [rw]) ! y))) [0..<length rws]) @
          map (\<lambda>x. (rid, x, length rws)) (row_occ rw)"
    by (simp add: rows_occ_def)
  then show ?thesis unfolding m by (simp add: rows_occ_def)
qed

lemma scan_rows_eq:
  "fold (\<lambda>(y, rw) acc. scan_row rid y rw acc) (enumerate 0 rws) (cnt, locs) =
     (cnt + length (rows_occ rid rws), locs @ map loc_of (rows_occ rid rws))"
proof (induction rws arbitrary: cnt locs rule: rev_induct)
  case Nil
  show ?case by (simp add: rows_occ_def)
next
  case (snoc rw rws)
  have e: "enumerate 0 (rws @ [rw]) = enumerate 0 rws @ [(length rws, rw)]"
    by (simp add: enumerate_append_eq)
  show ?case
    unfolding e rows_occ_snoc
    by (simp add: snoc scan_row_eq loc_of_def comp_def)
qed

lemma scan_room_eq:
  "scan_room room (cnt, locs) =
     (cnt + length (rows_occ (id_room room) (interior room)),
      locs @ map loc_of (rows_occ (id_room room) (interior room)))"
  unfolding scan_room_def by (rule scan_rows_eq)

lemma scan_level_eq:
  "fold scan_room rs (cnt, locs) =
     (cnt + length (concat (map (\<lambda>room. rows_occ (id_room room) (interior room)) rs)),
      locs @ map loc_of (concat (map (\<lambda>room. rows_occ (id_room room) (interior room)) rs)))"
  by (induction rs arbitrary: cnt locs) (simp_all add: scan_room_eq)

lemma spawn_errors_eq:
  "spawn_errors lv =
     (if spawn_occurrences lv = []
      then [''No spawn point found in level (place exactly 1 spawn tile)'']
      else if 1 < length (spawn_occurrences lv)
      then [''Multiple spawn points found ('' @ str_int (int (length (spawn_occurrences lv))) @
            ''). Only 1 spawn allowed. Locations: '' @
            join '', '' (map loc_of (spawn_occurrences lv))]
      else [])"
  unfolding spawn_errors_def scan_level_eq spawn_occurrences_def by simp

lemma sublist_in_right: "sublist p ys \<Longrightarrow> sublist p (xs @ ys)"
proof -
  assume "sublist p ys"
  then obtain ps ss where "ys = ps @ p @ ss" by (auto simp: sublist_def)
  then have "xs @ ys = (xs @ ps) @ p @ ss" by simp
  then show ?thesis unfolding sublist_def by blast
qed

lemma sublist_in_left: "sublist p xs \<Longrightarrow> sublist p (xs @ ys)"
proof -
  assume "sublist p xs"
  then obtain ps ss where "xs = ps @ p @ ss" by (auto simp: sublist_def)
  then have "xs @ ys = ps @ p @ (ss @ ys)" by simp
  then show ?thesis unfolding sublist_def by blast
qed

lemma sublist_join: "p \<in> set ps \<Longrightarrow> sublist p (join sep ps)"
proof (induction sep ps rule: join.induct)
  case (1 sep)
  then show ?case by simp
next
  case (2 sep q)
  then show ?case by simp
next
  case (3 sep q r rs)
  show ?case
  proof (cases "p = q")
    case True
    then show ?thesis by simp
  next
    case False
    then have "sublist p (join sep (r # rs))" using 3 by simp
    then have "sublist p (sep @ join sep (r # rs))" by (rule sublist_in_right)
    then have "sublist p (q @ sep @ join sep (r # rs))" by (rule sublist_in_right)
    then show ?thesis by simp
  qed
qed


lemma row_occ_iff: "x \<in> set (row_occ rw) \<longleftrightarrow> x < length rw \<and> rw ! x = SPAWN"
  by (auto simp: row_occ_def)

lemma rows_occ_iff:
  "(r, x, y) \<in> set (rows_occ rid rws) \<longleftrightarrow>
     r = rid \<and> y < length rws \<and> x < length (rws ! y) \<and> rws ! y ! x = SPAWN"
proof
  assume "(r, x, y) \<in> set (rows_occ rid rws)"
  then obtain y' where "y' < length rws"
    and "(r, x, y) \<in> (\<lambda>x. (rid, x, y')) ` set (row_occ (rws ! y'))"
    by (auto simp: rows_occ_def)
  then show "r = rid \<and> y < length rws \<and> x < length (rws ! y) \<and> rws ! y ! x = SPAWN"
    by (auto simp: row_occ_iff)
next
  assume a: "r = rid \<and> y < length rws \<and> x < length (rws ! y) \<and> rws ! y ! x = SPAWN"
  then have "x \<in> set (row_occ (rws ! y))" by (simp add: row_occ_iff)
  then have "(rid, x, y) \<in> (\<lambda>x. (rid, x, y)) ` set (row_occ (rws ! y))" by (rule imageI)
  moreover have "y \<in> set [0..<length rws]" using a by simp
  ultimately have "\<exists>y' \<in> set [0..<length rws].
      (rid, x, y) \<in> (\<lambda>x. (rid, x, y')) ` set (row_occ (rws ! y'))" by blast
  then show "(r, x, y) \<in> set (rows_occ rid rws)"
    using a unfolding rows_occ_def by simp
qed

lemma spawn_occurrences_iff:
  "(rid, x, y) \<in> set (spawn_occurrences lv) \<longleftrightarrow>
     (\<exists>room \<in> set (rooms lv). id_room room = rid \<and> y < length (interior room) \<and>
        x < length (interior room ! y) \<and> interior room ! y ! x = SPAWN)"
  unfolding spawn_occurrences_def by (auto simp: rows_occ_iff)

lemma other_errors_not_spawn:
  "\<not> spawn_related ''Duplicate room IDs found''"
  "\<not> spawn_related (''Room '' @ s)"
  "\<not> spawn_related (''Layout references non-existent room '' @ s)"
  "\<not> spawn_related ''Layout positions are not sequential''"
  by (simp_all add: spawn_related_def)

lemma validate_split:
  "\<exists>others. validate lv = others @ spawn_errors lv \<and> (\<forall>e \<in> set others. \<not> spawn_related e)"
proof -
  let ?e1 = "if length (map id_room (rooms lv)) \<noteq> card (set (map id_room (rooms lv)))
             then [''Duplicate room IDs found''] else []"
  let ?e2 = "concat (map interior_errors (rooms lv))"
  let ?e3 = "concat (map (\<lambda>entry.
                 if \<not> list_ex (\<lambda>r. id_room r = room_id entry) (rooms lv)
                 then [''Layout references non-existent room '' @ str_int (room_id entry)]
                 else []) (layout lv))"
  let ?e4 = "if sort (map position (layout lv)) \<noteq> py_range (int (length (layout lv)))
             then [''Layout positions are not sequential''] else []"
  have v: "validate lv = (?e1 @ ?e2 @ ?e3 @ ?e4) @ spawn_errors lv"
    by (simp add: validate_def Let_def)
  have n1: "\<forall>e \<in> set ?e1. \<not> spawn_related e"
    using other_errors_not_spawn(1) by simp
  have n2: "\<forall>e \<in> set ?e2. \<not> spawn_related e"
    using other_errors_not_spawn(2) by (auto simp: interior_errors_def Let_def split: if_splits)
  have n3: "\<forall>e \<in> set ?e3. \<not> spawn_related e"
    using other_errors_not_spawn(3) by (auto split: if_splits)
  have n4: "\<forall>e \<in> set ?e4. \<not> spawn_related e"
    using other_errors_not_spawn(4) by simp
  have "\<forall>e \<in> set (?e1 @ ?e2 @ ?e3 @ ?e4). \<not> spawn_related e"
    using n1 n2 n3 n4 unfolding set_append by blast
  with v show ?thesis by blast
qed

text \<open>
  Claim C5. \<open>validate\<close> reports the no-spawn error when the spawn tile occurs nowhere in
  the rooms' interiors, reports no spawn-related error when it occurs exactly once, and
  when it occurs more than once reports one error that gives the count and lists every
  occurrence as \<^verbatim>\<open>Room <id> at (<x>, <y>)\<close>. The occurrences are exactly the interior
  cells holding \<open>SPAWN\<close>.
\<close>

theorem spawn_validation_exact:
  "(spawn_occurrences lv = [] \<longrightarrow>
      ''No spawn point found in level (place exactly 1 spawn tile)'' \<in> set (validate lv)) \<and>
   (length (spawn_occurrences lv) = 1 \<longrightarrow> (\<forall>e \<in> set (validate lv). \<not> spawn_related e)) \<and>
   (1 < length (spawn_occurrences lv) \<longrightarrow>
      (\<exists>e \<in> set (validate lv).
         e = ''Multiple spawn points found ('' @ str_int (int (length (spawn_occurrences lv))) @
             ''). Only 1 spawn allowed. Locations: '' @
             join '', '' (map loc_of (spawn_occurrences lv)) \<and>
         (\<forall>(rid, x, y) \<in> set (spawn_occurrences lv).
            sublist (''Room '' @ str_int rid @ '' at ('' @ str_int (int x) @ '', '' @
                     str_int (int y) @ '')'') e))) \<and>
   ((rid, x, y) \<in> set (spawn_occurrences lv) \<longleftrightarrow>
      (\<exists>room \<in> set (rooms lv). id_room room = rid \<and> y < length (interior room) \<and>
         x < length (interior room ! y) \<and> interior room ! y ! x = SPAWN))"
proof -
  obtain others where v: "validate lv = others @ spawn_errors lv"
    and o: "\<forall>e \<in> set others. \<not> spawn_related e"
    using validate_split by blast
  have a: "''No spawn point found in level (place exactly 1 spawn tile)'' \<in> set (validate lv)"
    if "spawn_occurrences lv = []"
    unfolding v spawn_errors_eq using that by simp
  have b: "\<forall>e \<in> set (validate lv). \<not> spawn_related e" if "length (spawn_occurrences lv) = 1"
  proof -
    from that have "spawn_occurrences lv \<noteq> []" by auto
    then have "spawn_errors lv = []" unfolding spawn_errors_eq using that by simp
    then show ?thesis unfolding v using o by simp
  qed
  have c: "\<exists>e \<in> set (validate lv).
         e = ''Multiple spawn points found ('' @ str_int (int (length (spawn_occurrences lv))) @
             ''). Only 1 spawn allowed. Locations: '' @
             join '', '' (map loc_of (spawn_occurrences lv)) \<and>
         (\<forall>(rid, x, y) \<in> set (spawn_occurrences lv).
            sublist (''Room '' @ str_int rid @ '' at ('' @ str_int (int x) @ '', '' @
                     str_int (int y) @ '')'') e)"
    if m: "1 < length (spawn_occurrences lv)"
  proof -
    let ?j = "join '', '' (map loc_of (spawn_occurrences lv))"
    let ?msg = "''Multiple spawn points found ('' @ str_int (int (length (spawn_occurrences lv))) @
             ''). Only 1 spawn allowed. Locations: '' @ ?j"
    from m have ne: "spawn_occurrences lv \<noteq> []" by auto
    have se: "spawn_errors lv = [?msg]"
      unfolding spawn_errors_eq using m ne by simp
    have mem: "?msg \<in> set (validate lv)" unfolding v se by simp
    have sub: "sublist (''Room '' @ str_int rid @ '' at ('' @ str_int (int x) @ '', '' @
                     str_int (int y) @ '')'') ?msg"
      if t: "(rid, x, y) \<in> set (spawn_occurrences lv)" for rid x y
    proof -
      have "loc_of (rid, x, y) \<in> set (map loc_of (spawn_occurrences lv))"
        using t by simp
      then have "sublist (loc_of (rid, x, y)) (join '', '' (map loc_of (spawn_occurrences lv)))"
        by (rule sublist_join)
      then have "sublist (loc_of (rid, x, y)) ?msg"
        by (intro sublist_in_right)
      moreover have "loc_of (rid, x, y) =
          ''Room '' @ str_int rid @ '' at ('' @ str_int (int x) @ '', '' @ str_int (int y) @ '')''"
        by (simp add: loc_of_def spawn_location_def)
      ultimately show ?thesis by (simp only:)
    qed
    from sub have "\<forall>(rid, x, y) \<in> set (spawn_occurrences lv).
            sublist (''Room '' @ str_int rid @ '' at ('' @ str_int (int x) @ '', '' @
                     str_int (int y) @ '')'') ?msg"
      by (intro ballI) (simp only: split_paired_all case_prod_conv)
    with mem show ?thesis by (intro bexI [of _ ?msg] conjI refl)
  qed
  show ?thesis
    by (intro conjI impI a b c spawn_occurrences_iff)
qed

theorem spawn_validation_exact_witness:
  "spawn_occurrences (Level_init\<lparr>rooms := [Room_init 1 4 4]\<rparr>) = [] \<and>
   ''No spawn point found in level (place exactly 1 spawn tile)''
     \<in> set (validate (Level_init\<lparr>rooms := [Room_init 1 4 4]\<rparr>)) \<and>
   length (spawn_occurrences
     (Level_init\<lparr>rooms := [Room_init 1 4 4\<lparr>interior := [[0, 8], [0, 0]]\<rparr>]\<rparr>)) = 1 \<and>
   ''No spawn point found in level (place exactly 1 spawn tile)''
     \<notin> set (validate (Level_init\<lparr>rooms := [Room_init 1 4 4\<lparr>interior := [[0, 8], [0, 0]]\<rparr>]\<rparr>)) \<and>
   1 < length (spawn_occurrences
     (Level_init\<lparr>rooms := [Room_init 1 4 4\<lparr>interior := [[8, 0], [0, 0]]\<rparr>,
                            Room_init 12 4 4\<lparr>interior := [[0, 0], [0, 8]]\<rparr>]\<rparr>)) \<and>
   ''Multiple spawn points found (2). Only 1 spawn allowed. Locations: Room 1 at (0, 0), Room 12 at (1, 1)''
     \<in> set (validate
       (Level_init\<lparr>rooms := [Room_init 1 4 4\<lparr>interior := [[8, 0], [0, 0]]\<rparr>,
                              Room_init 12 4 4\<lparr>interior := [[0, 0], [0, 8]]\<rparr>]\<rparr>))"
proof -
  let ?L0 = "Level_init\<lparr>rooms := [Room_init 1 4 4]\<rparr>"
  let ?L1 = "Level_init\<lparr>rooms := [Room_init 1 4 4\<lparr>interior := [[0, 8], [0, 0]]\<rparr>]\<rparr>"
  let ?L2 = "Level_init\<lparr>rooms := [Room_init 1 4 4\<lparr>interior := [[8, 0], [0, 0]]\<rparr>,
                            Room_init 12 4 4\<lparr>interior := [[0, 0], [0, 8]]\<rparr>]\<rparr>"
  let ?no = "''No spawn point found in level (place exactly 1 spawn tile)''"
  have o0: "spawn_occurrences ?L0 = []" by code_simp
  have o1: "length (spawn_occurrences ?L1) = 1" by code_simp
  have o2: "1 < length (spawn_occurrences ?L2)" by code_simp
  have m2: "''Multiple spawn points found ('' @ str_int (int (length (spawn_occurrences ?L2))) @
             ''). Only 1 spawn allowed. Locations: '' @
             join '', '' (map loc_of (spawn_occurrences ?L2)) =
        ''Multiple spawn points found (2). Only 1 spawn allowed. Locations: Room 1 at (0, 0), Room 12 at (1, 1)''"
    by code_simp
  have sr: "spawn_related ?no" by (simp add: spawn_related_def)
  have a: "?no \<in> set (validate ?L0)"
    using spawn_validation_exact [of ?L0 0 0 0] o0 by blast
  have "\<forall>e \<in> set (validate ?L1). \<not> spawn_related e"
    using spawn_validation_exact [of ?L1 0 0 0] o1 by blast
  then have b: "?no \<notin> set (validate ?L1)" using sr by blast
  have "\<exists>e \<in> set (validate ?L2).
          e = ''Multiple spawn points found ('' @ str_int (int (length (spawn_occurrences ?L2))) @
             ''). Only 1 spawn allowed. Locations: '' @
             join '', '' (map loc_of (spawn_occurrences ?L2))"
    using spawn_validation_exact [of ?L2 0 0 0] o2 by blast
  then have c: "''Multiple spawn points found (2). Only 1 spawn allowed. Locations: Room 1 at (0, 0), Room 12 at (1, 1)''
     \<in> set (validate ?L2)"
    unfolding m2 by blast
  show ?thesis using o0 a o1 b o2 c by (intro conjI)
qed

section \<open>Export format\<close>

lemma digit_char_set: "d < 10 \<Longrightarrow> digit_char d \<in> set ''0123456789''"
  unfolding digit_char_def by (rule nth_mem) simp

lemma str_nat_chars: "set (str_nat n) \<subseteq> set ''0123456789''"
proof (induction n rule: str_nat.induct)
  case (1 n)
  show ?case
  proof (cases "n < 10")
    case True
    then show ?thesis using digit_char_set [of n] by (subst str_nat.simps) simp
  next
    case False
    have "n mod 10 < 10" by simp
    then have "digit_char (n mod 10) \<in> set ''0123456789''" by (rule digit_char_set)
    then show ?thesis using False 1 by (subst str_nat.simps) simp
  qed
qed

lemma str_int_chars:
  assumes "c \<in> set (str_int i)"
  shows "c \<in> set ''-0123456789''"
proof -
  have d: "c \<in> set ''-0123456789''" if "c \<in> set (str_nat m)" for m
  proof -
    from that have "c \<in> set ''0123456789''" using str_nat_chars [of m] by (rule subsetD [rotated])
    then show ?thesis by simp
  qed
  show ?thesis
  proof (cases "i < 0")
    case True
    then have "c = CHR ''-'' \<or> c \<in> set (str_nat (nat (- i)))"
      using assms by (simp add: str_int_def)
    then show ?thesis using d by (elim disjE) simp_all
  next
    case False
    then have "c \<in> set (str_nat (nat i))" using assms by (simp add: str_int_def)
    then show ?thesis by (rule d)
  qed
qed

lemma join_chars:
  assumes "c \<in> set (join sep ps)"
  shows "c \<in> set sep \<or> (\<exists>p \<in> set ps. c \<in> set p)"
  using assms by (induction sep ps rule: join.induct) auto

lemma format_row_chars:
  assumes "c \<in> set (format_row rw)"
  shows "c \<in> set ''[],-0123456789''"
proof -
  from assms have "c = CHR ''['' \<or> c = CHR '']'' \<or> c \<in> set (join '','' (map str_int rw))"
    by (auto simp: format_row_def)
  moreover have "c \<in> set ''[],-0123456789''" if "c \<in> set (join '','' (map str_int rw))"
  proof -
    from join_chars [OF that] have "c = CHR '','' \<or> (\<exists>i. c \<in> set (str_int i))" by auto
    then show ?thesis
    proof
      assume "c = CHR '',''" then show ?thesis by simp
    next
      assume "\<exists>i. c \<in> set (str_int i)"
      then obtain i where "c \<in> set (str_int i)" ..
      then have "c \<in> set ''-0123456789''" by (rule str_int_chars)
      then show ?thesis by simp
    qed
  qed
  ultimately show ?thesis by (elim disjE) simp_all
qed

lemma format_row_compact:
  "CHR '' '' \<notin> set (format_row rw) \<and> CHR 0x0A \<notin> set (format_row rw) \<and>
   CHR 0x09 \<notin> set (format_row rw) \<and> CHR 0x0D \<notin> set (format_row rw)"
proof -
  have "c \<notin> set (format_row rw)" if "c \<notin> set ''[],-0123456789''" for c
    using that format_row_chars [of c rw] by blast
  then show ?thesis by simp
qed


lemma hex_char_set: "d < 16 \<Longrightarrow> hex_char d \<in> set ''0123456789abcdef''"
  unfolding hex_char_def by (rule nth_mem) simp

lemma of_char_div16: "(of_char (c::char) :: nat) div 16 < 16"
  by (rule less_mult_imp_div_less) simp

lemma escape_char_no_newline: "CHR 0x0A \<notin> set (escape_char c)"
proof -
  have h1: "hex_char ((of_char c :: nat) div 16) \<noteq> CHR 0x0A"
    using hex_char_set [OF of_char_div16 [of c]] by auto
  have "(of_char c :: nat) mod 16 < 16" by simp
  then have h2: "hex_char ((of_char c :: nat) mod 16) \<noteq> CHR 0x0A"
    using hex_char_set [of "(of_char c :: nat) mod 16"] by auto
  show ?thesis
    unfolding escape_char_def using h1 h2 by auto
qed

lemma encode_string_no_newline: "CHR 0x0A \<notin> set (encode_string s)"
  using escape_char_no_newline by (auto simp: encode_string_def)

lemma join_no_char:
  "c \<notin> set sep \<Longrightarrow> (\<And>p. p \<in> set ps \<Longrightarrow> c \<notin> set p) \<Longrightarrow> c \<notin> set (join sep ps)"
  using join_chars [of c sep ps] by blast

lemma str_int_no_newline: "CHR 0x0A \<notin> set (str_int i)"
  using str_int_chars [of "CHR 0x0A" i] by auto

lemma json_dumps_single_line: "CHR 0x0A \<notin> set (json_dumps None lvl v)"
proof (induction v arbitrary: lvl)
  case PNone
  show ?case by simp
next
  case (PInt i)
  show ?case by (simp add: str_int_no_newline)
next
  case (PStr s)
  show ?case by (simp add: encode_string_no_newline)
next
  case (PList xs)
  have "CHR 0x0A \<notin> set (join (item_separator None (lvl + 1)) (map (json_dumps None (lvl + 1)) xs))"
    by (rule join_no_char) (auto simp: item_separator_def PList)
  then show ?case by (simp add: newline_indent_def)
next
  case (PDict kvs)
  have "CHR 0x0A \<notin> set (join (item_separator None (lvl + 1))
          (map (\<lambda>kv. encode_string (fst kv) @ '': '' @ json_dumps None (lvl + 1) (snd kv)) kvs))"
  proof (rule join_no_char)
    show "CHR 0x0A \<notin> set (item_separator None (lvl + 1))" by (simp add: item_separator_def)
  next
    fix p
    assume "p \<in> set (map (\<lambda>kv. encode_string (fst kv) @ '': '' @ json_dumps None (lvl + 1) (snd kv)) kvs)"
    then obtain kv where kv: "kv \<in> set kvs"
      and p: "p = encode_string (fst kv) @ '': '' @ json_dumps None (lvl + 1) (snd kv)" by auto
    have "snd kv \<in> Basic_BNFs.snds kv" by (cases kv) simp
    then have "CHR 0x0A \<notin> set (json_dumps None (lvl + 1) (snd kv))"
      using PDict kv by blast
    then show "CHR 0x0A \<notin> set p" unfolding p by (simp add: encode_string_no_newline)
  qed
  then show ?case by (simp add: newline_indent_def)
qed


lemma sublist_concat: "ys \<in> set xss \<Longrightarrow> sublist p ys \<Longrightarrow> sublist p (concat xss)"
proof -
  assume "ys \<in> set xss" and p: "sublist p ys"
  then obtain a b where "xss = a @ ys # b" by (meson split_list)
  then have "concat xss = concat a @ ys @ concat b" by simp
  then show ?thesis using p by (simp add: sublist_in_left sublist_in_right)
qed

lemma sublist_join_lead:
  "p \<in> set ps \<Longrightarrow> sublist (s @ p) (pre @ s @ join (c @ s) ps)"
proof (induction ps arbitrary: pre)
  case Nil
  then show ?case by simp
next
  case (Cons q qs)
  show ?case
  proof (cases "p = q")
    case True
    have "pre @ s @ join (c @ s) (q # qs) = pre @ (s @ p) @ drop (length p) (join (c @ s) (q # qs))"
      using True by (cases qs) simp_all
    then show ?thesis unfolding sublist_def by blast
  next
    case False
    then have mem: "p \<in> set qs" using Cons.prems by simp
    then obtain q' qs' where qs: "qs = q' # qs'" by (cases qs) auto
    have "sublist (s @ p) ((pre @ s @ q @ c) @ s @ join (c @ s) qs)"
      using mem by (rule Cons.IH)
    then show ?thesis unfolding qs by simp
  qed
qed

lemma row_on_own_line:
  assumes "rw \<in> set rws"
  shows \<open>sublist (''\<newline>        '' @ format_row rw) (format_interior rws)\<close>
proof -
  let ?s = \<open>''\<newline>        ''\<close>
  have "format_row rw \<in> set (map format_row rws)" using assms by simp
  then have "sublist (?s @ format_row rw) (''['' @ ?s @ join ('','' @ ?s) (map format_row rws))"
    by (rule sublist_join_lead)
  then have "sublist (?s @ format_row rw)
      ((''['' @ ?s @ join ('','' @ ?s) (map format_row rws)) @ ''\<newline>      ]'')"
    by (rule sublist_in_left)
  moreover have "format_interior rws =
      (''['' @ ?s @ join ('','' @ ?s) (map format_row rws)) @ ''\<newline>      ]''"
    by (simp add: format_interior_def)
  ultimately show ?thesis by (simp only:)
qed

lemma room_in_rooms_text:
  assumes "r \<in> set rs"
  shows "sublist (room_text r) (rooms_text rs)"
proof -
  let ?f = \<open>\<lambda>(i, room). room_text room @ (if int i < int (length rs) - 1 then '','' else []) @ ''\<newline>''\<close>
  from assms obtain i where i: "i < length rs" "rs ! i = r" by (auto simp: in_set_conv_nth)
  then have "(i, r) \<in> set (enumerate 0 rs)" by (auto simp: in_set_enumerate_eq)
  then have "?f (i, r) \<in> ?f ` set (enumerate 0 rs)" by (rule imageI)
  then have m: "?f (i, r) \<in> set (map ?f (enumerate 0 rs))" by (simp only: set_map)
  have "sublist (room_text r) (?f (i, r))" by (simp add: sublist_in_left)
  then show ?thesis unfolding rooms_text_def using m by (rule sublist_concat [rotated])
qed

lemma room_in_to_json:
  assumes "r \<in> set (rooms lv)"
  shows "sublist (room_text r) (to_json lv)"
proof -
  have "sublist (room_text r) (rooms_text (rooms lv))" using assms by (rule room_in_rooms_text)
  then show ?thesis unfolding to_json_def by (intro sublist_in_right sublist_in_left)
qed


lemma room_text_parts:
  \<open>sublist (''      "interior": '' @ format_interior (interior r) @ '',\<newline>'') (room_text r)\<close>
  \<open>sublist (''      "exits": '' @ json_dumps None 0 (PDict (exits r)) @ '',\<newline>'') (room_text r)\<close>
  \<open>sublist (''      "theme": '' @ json_dumps None 0 (PDict (theme r)) @ ''\<newline>    }'') (room_text r)\<close>
proof -
  let ?a = \<open>''    {\<newline>'' @ ''      "id": '' @ str_int (id_room r) @ '',\<newline>'' @
     ''      "width": '' @ str_int (width r) @ '',\<newline>'' @
     ''      "height": '' @ str_int (height r) @ '',\<newline>''\<close>
  let ?i = \<open>''      "interior": '' @ format_interior (interior r) @ '',\<newline>''\<close>
  let ?e = \<open>''      "exits": '' @ json_dumps None 0 (PDict (exits r)) @ '',\<newline>''\<close>
  let ?t = \<open>''      "theme": '' @ json_dumps None 0 (PDict (theme r)) @ ''\<newline>    }''\<close>
  have rt: "room_text r = ?a @ ?i @ ?e @ ?t" by (simp add: room_text_def)
  have "room_text r = ?a @ ?i @ (?e @ ?t)" unfolding rt by simp
  then show "sublist ?i (room_text r)" unfolding sublist_def by blast
  have "room_text r = (?a @ ?i) @ ?e @ ?t" unfolding rt by simp
  then show "sublist ?e (room_text r)" unfolding sublist_def by blast
  have "room_text r = (?a @ ?i @ ?e) @ ?t @ []" unfolding rt by simp
  then show "sublist ?t (room_text r)" unfolding sublist_def by blast
qed

lemma row_text_compact:
  "CHR '' '' \<notin> set (''['' @ join '','' (map str_int rw) @ '']'') \<and>
   CHR 0x0A \<notin> set (''['' @ join '','' (map str_int rw) @ '']'') \<and>
   CHR 0x09 \<notin> set (''['' @ join '','' (map str_int rw) @ '']'') \<and>
   CHR 0x0D \<notin> set (''['' @ join '','' (map str_int rw) @ '']'')"
  using format_row_compact [of rw] unfolding format_row_def .

lemma to_json_text:
  \<open>to_json lv =
     ''{\<newline>  "tile_types": '' @ json_dumps (Some 4) 0 (tile_types lv) @
     '',\<newline>  "rooms": [\<newline>'' @
     concat (map (\<lambda>(i, r).
        ''    {\<newline>      "id": '' @ str_int (id_room r) @
        '',\<newline>      "width": '' @ str_int (width r) @
        '',\<newline>      "height": '' @ str_int (height r) @
        '',\<newline>      "interior": [\<newline>        '' @
          join '',\<newline>        '' (map (\<lambda>rw. ''['' @ join '','' (map str_int rw) @ '']'') (interior r)) @
        ''\<newline>      ],\<newline>      "exits": '' @ json_dumps None 0 (PDict (exits r)) @
        '',\<newline>      "theme": '' @ json_dumps None 0 (PDict (theme r)) @
        ''\<newline>    }'' @ (if int i < int (length (rooms lv)) - 1 then '','' else []) @ ''\<newline>'')
       (enumerate 0 (rooms lv))) @
     ''  ],\<newline>  "layout": '' @
       json_dumps (Some 4) 0
         (PList (map (\<lambda>le. PDict [(''room_id'', PInt (room_id le)), (''position'', PInt (position le))])
                   (layout lv))) @
     '',\<newline>  "floor_layouts": '' @
       json_dumps (Some 4) 0 (PList (map FloorLayout_to_dict (floor_layouts lv))) @
     ''\<newline>}\<newline>''\<close>
proof -
  have rt: \<open>room_text r =
        ''    {\<newline>      "id": '' @ str_int (id_room r) @
        '',\<newline>      "width": '' @ str_int (width r) @
        '',\<newline>      "height": '' @ str_int (height r) @
        '',\<newline>      "interior": [\<newline>        '' @
          join '',\<newline>        '' (map (\<lambda>rw. ''['' @ join '','' (map str_int rw) @ '']'') (interior r)) @
        ''\<newline>      ],\<newline>      "exits": '' @ json_dumps None 0 (PDict (exits r)) @
        '',\<newline>      "theme": '' @ json_dumps None 0 (PDict (theme r)) @
        ''\<newline>    }''\<close> for r
  proof -
    have fr: "format_row = (\<lambda>rw. ''['' @ join '','' (map str_int rw) @ '']'')"
      by (simp add: fun_eq_iff format_row_def)
    show ?thesis unfolding room_text_def format_interior_def fr by simp
  qed
  have le: "map LayoutEntry_to_dict (layout lv) =
      map (\<lambda>le. PDict [(''room_id'', PInt (room_id le)), (''position'', PInt (position le))]) (layout lv)"
    by (simp add: LayoutEntry_to_dict_def)
  show ?thesis
    unfolding to_json_def rooms_text_def rt le by (simp add: case_prod_unfold)
qed

lemma json_dumps_text:
  \<open>json_dumps ind lvl PNone = ''null''\<close>
  \<open>json_dumps ind lvl (PInt i) = str_int i\<close>
  \<open>json_dumps ind lvl (PStr s) = CHR ''"'' # concat (map escape_char s) @ [CHR ''"'']\<close>
  \<open>json_dumps ind lvl (PList []) = ''[]''\<close>
  \<open>json_dumps ind lvl (PDict []) = ''{}''\<close>
  \<open>json_dumps None lvl (PList xs) = ''['' @ join '', '' (map (json_dumps None (Suc lvl)) xs) @ '']''\<close>
  \<open>json_dumps None lvl (PDict kvs) =
     ''{'' @ join '', '' (map (\<lambda>kv. CHR ''"'' # concat (map escape_char (fst kv)) @ ''": '' @
                                     json_dumps None (Suc lvl) (snd kv)) kvs) @ ''}''\<close>
  \<open>xs \<noteq> [] \<Longrightarrow> json_dumps (Some 4) lvl (PList xs) =
     ''[\<newline>'' @ replicate (4 * Suc lvl) CHR '' '' @
     join ('',\<newline>'' @ replicate (4 * Suc lvl) CHR '' '') (map (json_dumps (Some 4) (Suc lvl)) xs) @
     ''\<newline>'' @ replicate (4 * lvl) CHR '' '' @ '']''\<close>
  \<open>kvs \<noteq> [] \<Longrightarrow> json_dumps (Some 4) lvl (PDict kvs) =
     ''{\<newline>'' @ replicate (4 * Suc lvl) CHR '' '' @
     join ('',\<newline>'' @ replicate (4 * Suc lvl) CHR '' '')
       (map (\<lambda>kv. CHR ''"'' # concat (map escape_char (fst kv)) @ ''": '' @
                   json_dumps (Some 4) (Suc lvl) (snd kv)) kvs) @
     ''\<newline>'' @ replicate (4 * lvl) CHR '' '' @ ''}''\<close>
  by (simp_all add: newline_indent_def item_separator_def encode_string_def)

text \<open>
  Claim C9, as the code has it. In the text \<open>to_json\<close> produces, the top-level object and
  the room objects are written by hand: the four top-level keys after two spaces, each
  room's braces after four, and its id, width, height, interior, exits and theme lines
  after six. Every interior row is a bracketed comma-joined list without any whitespace,
  on a line of its own after eight spaces. The tile-type table, the layout and the floor
  layouts are written by \<^verbatim>\<open>json.dumps\<close> with \<^verbatim>\<open>indent=4\<close>: every item of a non-empty
  array or object on its own line, four spaces per nesting level, a comma after every
  item but the last, a colon and a space after a key. Each room's exits and theme are
  written by \<^verbatim>\<open>json.dumps\<close> without indent: on a single line, items separated by a
  comma and a space, keys followed by a colon and a space.
\<close>

theorem to_json_format:
  \<open>to_json lv =
     ''{\<newline>  "tile_types": '' @ json_dumps (Some 4) 0 (tile_types lv) @
     '',\<newline>  "rooms": [\<newline>'' @
     concat (map (\<lambda>(i, r).
        ''    {\<newline>      "id": '' @ str_int (id_room r) @
        '',\<newline>      "width": '' @ str_int (width r) @
        '',\<newline>      "height": '' @ str_int (height r) @
        '',\<newline>      "interior": [\<newline>        '' @
          join '',\<newline>        '' (map (\<lambda>rw. ''['' @ join '','' (map str_int rw) @ '']'') (interior r)) @
        ''\<newline>      ],\<newline>      "exits": '' @ json_dumps None 0 (PDict (exits r)) @
        '',\<newline>      "theme": '' @ json_dumps None 0 (PDict (theme r)) @
        ''\<newline>    }'' @ (if int i < int (length (rooms lv)) - 1 then '','' else []) @ ''\<newline>'')
       (enumerate 0 (rooms lv))) @
     ''  ],\<newline>  "layout": '' @
       json_dumps (Some 4) 0
         (PList (map (\<lambda>le. PDict [(''room_id'', PInt (room_id le)), (''position'', PInt (position le))])
                   (layout lv))) @
     '',\<newline>  "floor_layouts": '' @
       json_dumps (Some 4) 0 (PList (map FloorLayout_to_dict (floor_layouts lv))) @
     ''\<newline>}\<newline>'' \<and>
   CHR '' '' \<notin> set (''['' @ join '','' (map str_int rw) @ '']'') \<and>
   CHR 0x0A \<notin> set (''['' @ join '','' (map str_int rw) @ '']'') \<and>
   CHR 0x09 \<notin> set (''['' @ join '','' (map str_int rw) @ '']'') \<and>
   CHR 0x0D \<notin> set (''['' @ join '','' (map str_int rw) @ '']'') \<and>
   json_dumps ind lvl PNone = ''null'' \<and>
   json_dumps ind lvl (PInt i) = str_int i \<and>
   json_dumps ind lvl (PStr s) = CHR ''"'' # concat (map escape_char s) @ [CHR ''"''] \<and>
   json_dumps ind lvl (PList []) = ''[]'' \<and>
   json_dumps ind lvl (PDict []) = ''{}'' \<and>
   (xs \<noteq> [] \<longrightarrow> json_dumps (Some 4) lvl (PList xs) =
     ''[\<newline>'' @ replicate (4 * Suc lvl) CHR '' '' @
     join ('',\<newline>'' @ replicate (4 * Suc lvl) CHR '' '') (map (json_dumps (Some 4) (Suc lvl)) xs) @
     ''\<newline>'' @ replicate (4 * lvl) CHR '' '' @ '']'') \<and>
   (kvs \<noteq> [] \<longrightarrow> json_dumps (Some 4) lvl (PDict kvs) =
     ''{\<newline>'' @ replicate (4 * Suc lvl) CHR '' '' @
     join ('',\<newline>'' @ replicate (4 * Suc lvl) CHR '' '')
       (map (\<lambda>kv. CHR ''"'' # concat (map escape_char (fst kv)) @ ''": '' @
                   json_dumps (Some 4) (Suc lvl) (snd kv)) kvs) @
     ''\<newline>'' @ replicate (4 * lvl) CHR '' '' @ ''}'') \<and>
   json_dumps None lvl (PList xs) = ''['' @ join '', '' (map (json_dumps None (Suc lvl)) xs) @ '']'' \<and>
   json_dumps None lvl (PDict kvs) =
     ''{'' @ join '', '' (map (\<lambda>kv. CHR ''"'' # concat (map escape_char (fst kv)) @ ''": '' @
                                     json_dumps None (Suc lvl) (snd kv)) kvs) @ ''}'' \<and>
   CHR 0x0A \<notin> set (json_dumps None lvl v)\<close>
  by (intro conjI impI;
      ((rule to_json_text json_dumps_text json_dumps_single_line; assumption) |
       (insert row_text_compact [of rw], blast)))

theorem to_json_format_counterexample:
  \<open>to_json (Level_init\<lparr>tile_types := PDict [], rooms := [Room_init 1 4 4]\<rparr>) =
     ''{\<newline>  "tile_types": {},\<newline>  "rooms": [\<newline>    {\<newline>      "id": 1,\<newline>      "width": 4,\<newline>      "height": 4,\<newline>      "interior": [\<newline>        [0,0],\<newline>        [0,0]\<newline>      ],\<newline>      "exits": {"left": null, "right": null},\<newline>      "theme": {"wall_color": "darkgray", "floor_color": "gray", "ceiling_color": "gray"}\<newline>    }\<newline>  ],\<newline>  "layout": [],\<newline>  "floor_layouts": []\<newline>}\<newline>'' \<and>
   \<not> prefix ''{\<newline>    "tile_types"'' (to_json (Level_init\<lparr>tile_types := PDict [], rooms := [Room_init 1 4 4]\<rparr>)) \<and>
   \<not> sublist ''"exits": {\<newline>'' (to_json (Level_init\<lparr>tile_types := PDict [], rooms := [Room_init 1 4 4]\<rparr>)) \<and>
   \<not> sublist ''"theme": {\<newline>'' (to_json (Level_init\<lparr>tile_types := PDict [], rooms := [Room_init 1 4 4]\<rparr>))\<close>
  by code_simp

theorem to_json_format_witness:
  \<open>[PInt 1, PNone] \<noteq> [] \<and> [(''left'', PNone), (''k'', PList [])] \<noteq> [] \<and>
   json_dumps (Some 4) 1 (PList [PInt 1, PNone]) =
     ''[\<newline>        1,\<newline>        null\<newline>    ]'' \<and>
   json_dumps (Some 4) 1 (PDict [(''left'', PNone), (''k'', PList [])]) =
     ''{\<newline>        "left": null,\<newline>        "k": []\<newline>    }'' \<and>
   json_dumps None 1 (PDict [(''left'', PNone), (''k'', PList [])]) = ''{"left": null, "k": []}''\<close>
proof -
  have a: "[PInt 1, PNone] \<noteq> []" and b: "[(''left'', PNone), (''k'', PList [])] \<noteq> []" by simp_all
  note t = to_json_format [of Level_init "[]" None 1 0 "[]" "[PInt 1, PNone]"
      "[(''left'', PNone), (''k'', PList [])]" PNone]
  have c: \<open>json_dumps (Some 4) 1 (PList [PInt 1, PNone]) =
     ''[\<newline>'' @ replicate (4 * Suc 1) CHR '' '' @
     join ('',\<newline>'' @ replicate (4 * Suc 1) CHR '' '') (map (json_dumps (Some 4) (Suc 1)) [PInt 1, PNone]) @
     ''\<newline>'' @ replicate (4 * 1) CHR '' '' @ '']''\<close>
    using t a by blast
  have c': \<open>json_dumps (Some 4) 1 (PList [PInt 1, PNone]) =
     ''[\<newline>        1,\<newline>        null\<newline>    ]''\<close>
    unfolding c by code_simp
  have d: \<open>json_dumps (Some 4) 1 (PDict [(''left'', PNone), (''k'', PList [])]) =
     ''{\<newline>'' @ replicate (4 * Suc 1) CHR '' '' @
     join ('',\<newline>'' @ replicate (4 * Suc 1) CHR '' '')
       (map (\<lambda>kv. CHR ''"'' # concat (map escape_char (fst kv)) @ ''": '' @
                   json_dumps (Some 4) (Suc 1) (snd kv)) [(''left'', PNone), (''k'', PList [])]) @
     ''\<newline>'' @ replicate (4 * 1) CHR '' '' @ ''}''\<close>
    using t b by blast
  have d': \<open>json_dumps (Some 4) 1 (PDict [(''left'', PNone), (''k'', PList [])]) =
     ''{\<newline>        "left": null,\<newline>        "k": []\<newline>    }''\<close>
    unfolding d by code_simp
  have e: \<open>json_dumps None 1 (PDict [(''left'', PNone), (''k'', PList [])]) =
     ''{'' @ join '', '' (map (\<lambda>kv. CHR ''"'' # concat (map escape_char (fst kv)) @ ''": '' @
                                     json_dumps None (Suc 1) (snd kv))
                            [(''left'', PNone), (''k'', PList [])]) @ ''}''\<close>
    using t by blast
  have e': \<open>json_dumps None 1 (PDict [(''left'', PNone), (''k'', PList [])]) = ''{"left": null, "k": []}''\<close>
    unfolding e by code_simp
  show ?thesis using a b c' d' e' by (intro conjI)
qed

section \<open>JSON round trip\<close>

subsection \<open>Cutting the exported text into tokens\<close>

lemma emit_emits: "emit t r = emits [t] r"
  by (cases r) (simp_all add: emit_def emits_def)

lemma emits_emits: "emits a (emits b r) = emits (a @ b) r"
  by (cases r) (simp_all add: emits_def)

lemma emits_Nil: "emits [] r = r"
  by (cases r) (simp_all add: emits_def)

lemma emits_Cons: "emits (t # ts) r = emit t (emits ts r)"
  by (cases r) (simp_all add: emits_def emit_def)

lemma delim_num_end: "delim rest \<Longrightarrow> num_end rest"
  by (cases rest) (auto simp: delim_def num_end_def digit_val_def float_mark_def)

lemma scan_spaces: "scan Idle (replicate k CHR '' '' @ rest) = scan Idle rest"
  by (induction k) (simp_all add: is_ws_def)

lemma scan_newline_indent: "scan Idle (newline_indent ind lvl @ rest) = scan Idle rest"
  by (cases ind) (simp_all add: newline_indent_def is_ws_def scan_spaces)

lemma digit_cases: "d < 10 \<Longrightarrow> d = 0 \<or> d = 1 \<or> d = 2 \<or> d = 3 \<or> d = 4 \<or> d = 5 \<or> d = 6 \<or> d = 7 \<or> d = 8 \<or> d = (9::nat)"
  by arith

lemma digit_val_digit_char: "d < 10 \<Longrightarrow> digit_val (digit_char d) = Some d"
  using digit_cases [of d] by (auto simp: digit_val_def digit_char_def)

lemma of_char_digit_char: "d < 10 \<Longrightarrow> (of_char (digit_char d) :: nat) = 48 + d"
  using digit_cases [of d] by (auto simp: digit_char_def)

lemma scan_Idle_nonzero_digit:
  assumes "(49::nat) \<le> of_char c" and "(of_char c :: nat) \<le> 57"
  shows "scan Idle (c # cs) = scan (InNum False (of_char c - 48)) cs"
proof -
  have n: \<open>c \<noteq> CHR ''['' \<and> c \<noteq> CHR '']'' \<and> c \<noteq> CHR ''{'' \<and> c \<noteq> CHR ''}'' \<and> c \<noteq> CHR '','' \<and>
           c \<noteq> CHR '':'' \<and> c \<noteq> CHR ''"'' \<and> c \<noteq> CHR ''-'' \<and> c \<noteq> CHR ''0'' \<and> c \<noteq> CHR ''n''\<close>
    using assms by auto
  have w: "\<not> is_ws c" using assms by (auto simp: is_ws_def)
  have d: "digit_val c = Some (of_char c - 48)" using assms by (simp add: digit_val_def)
  show ?thesis using n w d by simp
qed

lemma scan_InNeg_nonzero_digit:
  assumes "(49::nat) \<le> of_char c" and "(of_char c :: nat) \<le> 57"
  shows "scan InNeg (c # cs) = scan (InNum True (of_char c - 48)) cs"
proof -
  have n: "c \<noteq> CHR ''0''" using assms by auto
  have d: "digit_val c = Some (of_char c - 48)" using assms by (simp add: digit_val_def)
  show ?thesis using n d by simp
qed

lemma scan_first_digit:
  assumes "0 < d" and "d < 10"
  shows "scan Idle (digit_char d # cs) = scan (InNum False d) cs"
    and "scan InNeg (digit_char d # cs) = scan (InNum True d) cs"
proof -
  have c: "(49::nat) \<le> of_char (digit_char d)" "(of_char (digit_char d) :: nat) \<le> 57"
    and e: "(of_char (digit_char d) :: nat) - 48 = d"
    using of_char_digit_char [OF assms(2)] assms by simp_all
  show "scan Idle (digit_char d # cs) = scan (InNum False d) cs"
    using scan_Idle_nonzero_digit [OF c, of cs] unfolding e .
  show "scan InNeg (digit_char d # cs) = scan (InNum True d) cs"
    using scan_InNeg_nonzero_digit [OF c, of cs] unfolding e .
qed

lemma scan_next_digit:
  "d < 10 \<Longrightarrow> scan (InNum neg n) (digit_char d # cs) = scan (InNum neg (10 * n + d)) cs"
  by (simp add: digit_val_digit_char)

lemma scan_str_nat:
  "0 < n \<Longrightarrow> scan Idle (str_nat n @ cs) = scan (InNum False n) cs"
  "0 < n \<Longrightarrow> scan InNeg (str_nat n @ cs) = scan (InNum True n) cs"
proof (induction n arbitrary: cs rule: str_nat.induct)
  case (1 n)
  {
    case 1
    show ?case
    proof (cases "n < 10")
      case True
      then show ?thesis using 1 scan_first_digit(1) [of n cs] by (subst str_nat.simps) simp
    next
      case False
      then have p: "0 < n div 10" by simp
      have d: "n mod 10 < 10" by simp
      have "scan Idle (str_nat n @ cs) = scan Idle (str_nat (n div 10) @ digit_char (n mod 10) # cs)"
        using False by (subst str_nat.simps) simp
      also have "\<dots> = scan (InNum False (n div 10)) (digit_char (n mod 10) # cs)"
        using "1.IH"(1) [OF False p] .
      also have "\<dots> = scan (InNum False (10 * (n div 10) + n mod 10)) cs"
        using scan_next_digit [OF d] .
      finally show ?thesis by simp
    qed
  next
    case 2
    show ?case
    proof (cases "n < 10")
      case True
      then show ?thesis using 2 scan_first_digit(2) [of n cs] by (subst str_nat.simps) simp
    next
      case False
      then have p: "0 < n div 10" by simp
      have d: "n mod 10 < 10" by simp
      have "scan InNeg (str_nat n @ cs) = scan InNeg (str_nat (n div 10) @ digit_char (n mod 10) # cs)"
        using False by (subst str_nat.simps) simp
      also have "\<dots> = scan (InNum True (n div 10)) (digit_char (n mod 10) # cs)"
        using "1.IH"(2) [OF False p] .
      also have "\<dots> = scan (InNum True (10 * (n div 10) + n mod 10)) cs"
        using scan_next_digit [OF d] .
      finally show ?thesis by simp
    qed
  }
qed

lemma scan_num_end:
  assumes "num_end rest"
  shows "scan (InNum neg n) rest = emit (TInt (signed neg n)) (scan Idle rest)"
    and "scan InZero rest = emit (TInt 0) (scan Idle rest)"
  using assms by (cases rest; simp add: num_end_def emit_def)+

lemma str_nat_0: "str_nat 0 = ''0''"
  by (subst str_nat.simps) (simp add: digit_char_def)

lemma scan_str_int:
  assumes "num_end rest"
  shows "scan Idle (str_int i @ rest) = emit (TInt i) (scan Idle rest)"
proof (cases "i < 0")
  case True
  then have p: "0 < nat (- i)" by simp
  have "scan Idle (str_int i @ rest) = scan InNeg (str_nat (nat (- i)) @ rest)"
    using True by (simp add: str_int_def is_ws_def)
  also have "\<dots> = scan (InNum True (nat (- i))) rest" using scan_str_nat(2) [OF p] .
  also have "\<dots> = emit (TInt (signed True (nat (- i)))) (scan Idle rest)"
    using scan_num_end(1) [OF assms] .
  finally show ?thesis using True by (simp add: signed_def)
next
  case False
  show ?thesis
  proof (cases "i = 0")
    case True
    then show ?thesis
      using scan_num_end(2) [OF assms] by (simp add: str_int_def str_nat_0 is_ws_def)
  next
    case nz: False
    then have p: "0 < nat i" using False by simp
    have "scan Idle (str_int i @ rest) = scan Idle (str_nat (nat i) @ rest)"
      using False by (simp add: str_int_def)
    also have "\<dots> = scan (InNum False (nat i)) rest" using scan_str_nat(1) [OF p] .
    also have "\<dots> = emit (TInt (signed False (nat i))) (scan Idle rest)"
      using scan_num_end(1) [OF assms] .
    finally show ?thesis using False by (simp add: signed_def)
  qed
qed

lemma scan_null: "scan Idle (''null'' @ rest) = emit TNull (scan Idle rest)"
  by (simp add: is_ws_def)

lemma hex_cases:
  "d < 16 \<Longrightarrow> d = 0 \<or> d = 1 \<or> d = 2 \<or> d = 3 \<or> d = 4 \<or> d = 5 \<or> d = 6 \<or> d = 7 \<or> d = 8 \<or> d = 9 \<or>
     d = 10 \<or> d = 11 \<or> d = 12 \<or> d = 13 \<or> d = 14 \<or> d = (15::nat)"
  by arith

lemma hex_val_hex_char: "d < 16 \<Longrightarrow> hex_val (hex_char d) = Some d"
  using hex_cases [of d] by (auto simp: hex_val_def hex_char_def)

lemma scan_InUni:
  assumes "a < 16" and "b < 16"
  shows "scan (InUni acc []) (CHR ''0'' # CHR ''0'' # hex_char a # hex_char b # cs) =
         scan (InStr (acc @ [char_of (16 * a + b)])) cs"
proof -
  have z: "hex_val CHR ''0'' = Some 0" by (simp add: hex_val_def)
  have lt: "16 * a + b < 256" using assms by arith
  show ?thesis
    using lt by (simp add: z hex_val_hex_char [OF assms(1)] hex_val_hex_char [OF assms(2)])
qed

lemma scan_escape_char:
  "scan (InStr acc) (escape_char c @ cs) = scan (InStr (acc @ [c])) cs"
proof -
  consider (q) \<open>c = CHR ''"''\<close> | (b) "c = CHR 0x5C" | (n) "c = CHR 0x0A" | (r) "c = CHR 0x0D"
    | (t) "c = CHR 0x09" | (bs) "c = CHR 0x08" | (ff) "c = CHR 0x0C"
    | (u) \<open>c \<noteq> CHR ''"''\<close> "c \<noteq> CHR 0x5C" "c \<noteq> CHR 0x0A" "c \<noteq> CHR 0x0D" "c \<noteq> CHR 0x09"
          "c \<noteq> CHR 0x08" "c \<noteq> CHR 0x0C" "(of_char c :: nat) < 32 \<or> 126 < (of_char c :: nat)"
    | (p) \<open>c \<noteq> CHR ''"''\<close> "c \<noteq> CHR 0x5C" "\<not> ((of_char c :: nat) < 32 \<or> 126 < (of_char c :: nat))"
    by blast
  then show ?thesis
  proof cases
    case u
    have a: "(of_char c :: nat) div 16 < 16"
      by (rule less_mult_imp_div_less) (simp add: nat_of_char_less_256)
    have b: "(of_char c :: nat) mod 16 < 16" by simp
    have e: "escape_char c = [CHR 0x5C, CHR ''u'', CHR ''0'', CHR ''0'',
            hex_char ((of_char c :: nat) div 16), hex_char ((of_char c :: nat) mod 16)]"
      using u by (simp add: escape_char_def)
    have "scan (InStr acc) (escape_char c @ cs) =
          scan (InUni acc []) (CHR ''0'' # CHR ''0'' # hex_char ((of_char c :: nat) div 16) #
             hex_char ((of_char c :: nat) mod 16) # cs)"
      unfolding e by simp
    also have "\<dots> = scan (InStr (acc @ [char_of (16 * ((of_char c :: nat) div 16) + (of_char c :: nat) mod 16)])) cs"
      by (rule scan_InUni [OF a b])
    finally show ?thesis by simp
  next
    case p
    then have e: "escape_char c = [c]" by (auto simp: escape_char_def)
    show ?thesis unfolding e using p by simp
  qed (simp_all add: escape_char_def)
qed

lemma scan_escaped:
  "scan (InStr acc) (concat (map escape_char s) @ cs) = scan (InStr (acc @ s)) cs"
proof (induction s arbitrary: acc)
  case Nil show ?case by simp
next
  case (Cons c s)
  have "scan (InStr acc) (concat (map escape_char (c # s)) @ cs) =
        scan (InStr acc) (escape_char c @ (concat (map escape_char s) @ cs))" by simp
  also have "\<dots> = scan (InStr (acc @ [c])) (concat (map escape_char s) @ cs)"
    by (rule scan_escape_char)
  also have "\<dots> = scan (InStr ((acc @ [c]) @ s)) cs" by (rule Cons.IH)
  finally show ?case by simp
qed

lemma scan_encode_string:
  "scan Idle (encode_string s @ rest) = emit (TStr s) (scan Idle rest)"
proof -
  have "scan Idle (encode_string s @ rest) =
        scan (InStr []) (concat (map escape_char s) @ (CHR 0x22 # rest))"
    by (simp add: encode_string_def is_ws_def)
  also have "\<dots> = scan (InStr ([] @ s)) (CHR 0x22 # rest)" by (rule scan_escaped)
  finally show ?thesis by simp
qed

lemma scan_join:
  assumes el: "\<And>x rest. x \<in> set xs \<Longrightarrow> delim rest \<Longrightarrow>
                 scan Idle (f x @ rest) = emits (g x) (scan Idle rest)"
    and sep: "\<And>rest. scan Idle (sep @ rest) = emit TComma (scan Idle rest)"
    and dsep: "\<And>rest. delim (sep @ rest)"
    and rest: "delim rest"
  shows "scan Idle (join sep (map f xs) @ rest) = emits (join [TComma] (map g xs)) (scan Idle rest)"
  using el
proof (induction xs rule: induct_list012)
  case 1
  show ?case by (simp add: emits_Nil)
next
  case (2 x)
  show ?case using "2.prems" [of x rest] rest by simp
next
  case (3 x y zs)
  have IH: "scan Idle (join sep (map f (y # zs)) @ rest) =
            emits (join [TComma] (map g (y # zs))) (scan Idle rest)"
    by (rule "3.IH"(2)) (rule "3.prems", simp_all)
  have "scan Idle (join sep (map f (x # y # zs)) @ rest) =
        scan Idle (f x @ (sep @ (join sep (map f (y # zs)) @ rest)))" by simp
  also have "\<dots> = emits (g x) (scan Idle (sep @ (join sep (map f (y # zs)) @ rest)))"
    by (rule "3.prems") (simp_all add: dsep)
  also have "\<dots> = emits (g x) (emit TComma (scan Idle (join sep (map f (y # zs)) @ rest)))"
    by (simp only: sep)
  also have "\<dots> = emits (g x) (emit TComma (emits (join [TComma] (map g (y # zs))) (scan Idle rest)))"
    by (simp only: IH)
  finally show ?case by (simp add: emit_emits emits_emits)
qed

lemma scan_item_separator:
  "scan Idle (item_separator ind lvl @ rest) = emit TComma (scan Idle rest)"
  by (cases ind) (simp_all add: item_separator_def is_ws_def scan_newline_indent)

lemma delim_item_separator: "delim (item_separator ind lvl @ rest)"
  by (cases ind) (simp_all add: item_separator_def delim_def)

lemma delim_close:
  "delim (newline_indent ind lvl @ CHR '']'' # rest)"
  "delim (newline_indent ind lvl @ CHR ''}'' # rest)"
  by (cases ind; simp add: newline_indent_def delim_def)+

lemma scan_json_dumps:
  "delim rest \<Longrightarrow> scan Idle (json_dumps ind lvl v @ rest) = emits (toks v) (scan Idle rest)"
proof (induction v arbitrary: lvl rest)
  case PNone
  show ?case by (simp add: is_ws_def emit_emits)
next
  case (PInt i)
  show ?case using scan_str_int [OF delim_num_end [OF PInt]] by (simp add: emit_emits)
next
  case (PStr s)
  show ?case by (simp add: scan_encode_string emit_emits)
next
  case (PList xs)
  show ?case
  proof (cases "xs = []")
    case True
    then show ?thesis by (simp add: is_ws_def emit_emits emits_emits emits_Nil)
  next
    case False
    let ?sep = "item_separator ind (lvl + 1)"
    let ?r = "newline_indent ind lvl @ CHR '']'' # rest"
    have j: "scan Idle (join ?sep (map (json_dumps ind (lvl + 1)) xs) @ ?r) =
             emits (join [TComma] (map toks xs)) (scan Idle ?r)"
      by (rule scan_join) (simp_all add: PList.IH scan_item_separator delim_item_separator delim_close)
    have "scan Idle (json_dumps ind lvl (PList xs) @ rest) =
          emit TLBrack (scan Idle (join ?sep (map (json_dumps ind (lvl + 1)) xs) @ ?r))"
      using False by (simp add: is_ws_def scan_newline_indent)
    also have "\<dots> = emit TLBrack (emits (join [TComma] (map toks xs)) (emit TRBrack (scan Idle rest)))"
      unfolding j by (simp add: scan_newline_indent is_ws_def)
    finally show ?thesis by (simp add: emit_emits emits_emits)
  qed
next
  case (PDict kvs)
  show ?case
  proof (cases "kvs = []")
    case True
    then show ?thesis by (simp add: is_ws_def emit_emits emits_emits emits_Nil)
  next
    case False
    let ?sep = "item_separator ind (lvl + 1)"
    let ?r = "newline_indent ind lvl @ CHR ''}'' # rest"
    let ?f = "\<lambda>kv. encode_string (fst kv) @ '': '' @ json_dumps ind (lvl + 1) (snd kv)"
    let ?g = "\<lambda>kv. TStr (fst kv) # TColon # toks (snd kv)"
    have el: "scan Idle (?f kv @ r) = emits (?g kv) (scan Idle r)"
      if "kv \<in> set kvs" and "delim r" for kv r
    proof -
      have v: "scan Idle (json_dumps ind (lvl + 1) (snd kv) @ r) = emits (toks (snd kv)) (scan Idle r)"
        by (rule PDict.IH [OF that(1) _ that(2)]) (cases kv, simp)
      show ?thesis
        using v by (simp add: scan_encode_string is_ws_def emit_emits emits_emits)
    qed
    have j: "scan Idle (join ?sep (map ?f kvs) @ ?r) = emits (join [TComma] (map ?g kvs)) (scan Idle ?r)"
      by (rule scan_join) (simp_all only: el scan_item_separator delim_item_separator delim_close)
    have "scan Idle (json_dumps ind lvl (PDict kvs) @ rest) =
          emit TLBrace (scan Idle (join ?sep (map ?f kvs) @ ?r))"
      using False by (simp add: is_ws_def scan_newline_indent)
    also have "\<dots> = emit TLBrace (emits (join [TComma] (map ?g kvs)) (emit TRBrace (scan Idle rest)))"
      unfolding j by (simp add: scan_newline_indent is_ws_def)
    finally show ?thesis by (simp add: emit_emits emits_emits)
  qed
qed

lemma rooms_concat:
  assumes "n = k + length rs"
  shows \<open>concat (map (\<lambda>(i, room). room_text room @ (if int i < int n - 1 then '','' else []) @ ''\<newline>'')
            (enumerate k rs)) =
         (if rs = [] then [] else join '',\<newline>'' (map room_text rs) @ ''\<newline>'')\<close>
  using assms
proof (induction rs arbitrary: k)
  case Nil
  show ?case by simp
next
  case (Cons r rs)
  show ?case
  proof (cases rs)
    case Nil
    then show ?thesis using Cons.prems by simp
  next
    case (Cons q ps)
    have n: "n = Suc k + length rs" using Cons.prems by simp
    have lt: "int k < int n - 1" using Cons.prems Cons by simp
    show ?thesis using Cons.IH [OF n] lt Cons by simp
  qed
qed

lemma rooms_text_join:
  \<open>rooms_text rs = (if rs = [] then [] else join '',\<newline>'' (map room_text rs) @ ''\<newline>'')\<close>
  unfolding rooms_text_def by (rule rooms_concat) simp

lemma scan_format_row:
  "scan Idle (format_row rw @ rest) = emits (toks (PList (map PInt rw))) (scan Idle rest)"
proof -
  let ?r = "CHR '']'' # rest"
  have j: "scan Idle (join '','' (map str_int rw) @ ?r) =
           emits (join [TComma] (map (\<lambda>i. [TInt i]) rw)) (scan Idle ?r)"
    by (rule scan_join)
       (simp_all add: scan_str_int delim_num_end emit_emits is_ws_def delim_def)
  have t: "map toks (map PInt rw) = map (\<lambda>i. [TInt i]) rw" by simp
  have "scan Idle (format_row rw @ rest) = emit TLBrack (scan Idle (join '','' (map str_int rw) @ ?r))"
    by (simp add: format_row_def is_ws_def)
  also have "\<dots> = emit TLBrack (emits (join [TComma] (map (\<lambda>i. [TInt i]) rw)) (emit TRBrack (scan Idle rest)))"
    unfolding j by (simp add: is_ws_def)
  finally show ?thesis unfolding toks.simps t by (simp add: emit_emits emits_emits)
qed

lemma scan_format_interior:
  "scan Idle (format_interior rws @ rest) =
   emits (toks (PList (map (\<lambda>rw. PList (map PInt rw)) rws))) (scan Idle rest)"
proof -
  let ?r = \<open>''\<newline>      ]'' @ rest\<close>
  let ?g = "\<lambda>rw. toks (PList (map PInt rw))"
  have j: \<open>scan Idle (join '',\<newline>        '' (map format_row rws) @ ?r) =
           emits (join [TComma] (map ?g rws)) (scan Idle ?r)\<close>
    by (rule scan_join) (simp_all only: scan_format_row, simp_all add: is_ws_def delim_def)
  have t: "map toks (map (\<lambda>rw. PList (map PInt rw)) rws) = map ?g rws" by simp
  have \<open>scan Idle (format_interior rws @ rest) =
        emit TLBrack (scan Idle (join '',\<newline>        '' (map format_row rws) @ ?r))\<close>
    by (simp add: format_interior_def is_ws_def)
  also have "\<dots> = emit TLBrack (emits (join [TComma] (map ?g rws)) (emit TRBrack (scan Idle rest)))"
    unfolding j by (simp add: is_ws_def)
  finally show ?thesis unfolding toks.simps(4) [of "map (\<lambda>rw. PList (map PInt rw)) rws"] t
    by (simp add: emit_emits emits_emits)
qed

lemma delim_simps:
  "delim (CHR '','' # cs)" "delim (CHR 0x0A # cs)" "delim (CHR '']'' # cs)" "delim (CHR ''}'' # cs)"
  by (simp_all add: delim_def)

lemma scan_room_text:
  "scan Idle (room_text r @ rest) = emits (toks (Room_to_dict r)) (scan Idle rest)"
proof -
  have n: "num_end (CHR '','' # cs)" for cs by (rule delim_num_end) (simp add: delim_def)
  show ?thesis
    by (simp add: room_text_def Room_to_dict_def is_ws_def n scan_str_int scan_format_interior
          scan_json_dumps delim_simps emit_emits emits_emits del: json_dumps.simps toks.simps)
       (simp add: emits_def)
qed

lemma scan_rooms_text:
  "scan Idle (rooms_text rs @ rest) =
   emits (join [TComma] (map (\<lambda>r. toks (Room_to_dict r)) rs)) (scan Idle rest)"
proof (cases "rs = []")
  case True
  then show ?thesis by (simp add: rooms_text_join emits_Nil)
next
  case False
  let ?r = \<open>''\<newline>'' @ rest\<close>
  have j: \<open>scan Idle (join '',\<newline>'' (map room_text rs) @ ?r) =
           emits (join [TComma] (map (\<lambda>r. toks (Room_to_dict r)) rs)) (scan Idle ?r)\<close>
    by (rule scan_join) (simp_all only: scan_room_text, simp_all add: is_ws_def delim_def)
  have \<open>scan Idle (rooms_text rs @ rest) = scan Idle (join '',\<newline>'' (map room_text rs) @ ?r)\<close>
    using False by (simp add: rooms_text_join)
  also have "\<dots> = emits (join [TComma] (map (\<lambda>r. toks (Room_to_dict r)) rs)) (scan Idle rest)"
    unfolding j by (simp add: is_ws_def)
  finally show ?thesis .
qed

lemma toks_rooms:
  "toks (PList (map Room_to_dict rs)) =
   TLBrack # join [TComma] (map (\<lambda>r. toks (Room_to_dict r)) rs) @ [TRBrack]"
  by (simp add: comp_def)

lemma scan_json_dumps_comma:
  "scan Idle (json_dumps ind lvl v @ CHR '','' # rest) = emits (toks v) (emit TComma (scan Idle rest))"
proof -
  have "scan Idle (json_dumps ind lvl v @ CHR '','' # rest) = emits (toks v) (scan Idle (CHR '','' # rest))"
    by (rule scan_json_dumps) (simp add: delim_def)
  then show ?thesis by (simp add: is_ws_def)
qed

lemma scan_json_dumps_newline:
  "scan Idle (json_dumps ind lvl v @ CHR 0x0A # rest) = emits (toks v) (scan Idle rest)"
proof -
  have "scan Idle (json_dumps ind lvl v @ CHR 0x0A # rest) = emits (toks v) (scan Idle (CHR 0x0A # rest))"
    by (rule scan_json_dumps) (simp add: delim_def)
  then show ?thesis by (simp add: is_ws_def)
qed

lemma scan_to_json: "scan Idle (to_json lv) = Some (toks (Level_to_dict lv))"
proof -
  let ?ly = "PList (map LayoutEntry_to_dict (layout lv))"
  let ?fl = "PList (map FloorLayout_to_dict (floor_layouts lv))"
  have a: \<open>scan Idle (json_dumps (Some 4) 0 ?fl @ ''\<newline>}\<newline>'') = Some (toks ?fl @ [TRBrace])\<close>
    by (simp add: scan_json_dumps_newline is_ws_def emits_def emit_def
          del: json_dumps.simps toks.simps)
  have b: \<open>scan Idle (json_dumps (Some 4) 0 ?ly @ '',\<newline>  "floor_layouts": '' @
              json_dumps (Some 4) 0 ?fl @ ''\<newline>}\<newline>'') =
           Some (toks ?ly @ [TComma, TStr ''floor_layouts'', TColon] @ toks ?fl @ [TRBrace])\<close>
    using a
    by (simp add: scan_json_dumps_comma is_ws_def emits_def emit_def
          del: json_dumps.simps toks.simps)
  have c: \<open>scan Idle (rooms_text (rooms lv) @ ''  ],\<newline>  "layout": '' @
              json_dumps (Some 4) 0 ?ly @ '',\<newline>  "floor_layouts": '' @
              json_dumps (Some 4) 0 ?fl @ ''\<newline>}\<newline>'') =
           Some (join [TComma] (map (\<lambda>r. toks (Room_to_dict r)) (rooms lv)) @
                 [TRBrack, TComma, TStr ''layout'', TColon] @
                 toks ?ly @ [TComma, TStr ''floor_layouts'', TColon] @ toks ?fl @ [TRBrace])\<close>
    using b
    by (simp add: scan_rooms_text is_ws_def emits_def emit_def del: json_dumps.simps toks.simps)
  have d: \<open>scan Idle (json_dumps (Some 4) 0 (tile_types lv) @ '',\<newline>  "rooms": [\<newline>'' @
              rooms_text (rooms lv) @ ''  ],\<newline>  "layout": '' @
              json_dumps (Some 4) 0 ?ly @ '',\<newline>  "floor_layouts": '' @
              json_dumps (Some 4) 0 ?fl @ ''\<newline>}\<newline>'') =
           Some (toks (tile_types lv) @ [TComma, TStr ''rooms'', TColon, TLBrack] @
                 join [TComma] (map (\<lambda>r. toks (Room_to_dict r)) (rooms lv)) @
                 [TRBrack, TComma, TStr ''layout'', TColon] @
                 toks ?ly @ [TComma, TStr ''floor_layouts'', TColon] @ toks ?fl @ [TRBrace])\<close>
    using c
    by (simp add: scan_json_dumps_comma is_ws_def emits_def emit_def
          del: json_dumps.simps toks.simps)
  have t: "toks (Level_to_dict lv) =
           [TLBrace, TStr ''tile_types'', TColon] @ toks (tile_types lv) @
           [TComma, TStr ''rooms'', TColon, TLBrack] @
           join [TComma] (map (\<lambda>r. toks (Room_to_dict r)) (rooms lv)) @
           [TRBrack, TComma, TStr ''layout'', TColon] @
           toks ?ly @ [TComma, TStr ''floor_layouts'', TColon] @ toks ?fl @ [TRBrace]"
    unfolding Level_to_dict_def toks.simps(5) by (simp add: toks_rooms del: toks.simps)
  show ?thesis
    unfolding t to_json_def using d
    by (simp add: is_ws_def emit_def del: json_dumps.simps toks.simps)
qed

subsection \<open>Parsing the tokens of a value\<close>

lemma dict_set_fresh: "k \<notin> fst ` set d \<Longrightarrow> dict_set d k v = d @ [(k, v)]"
  by (induction d) auto

lemma toks_head: "\<exists>t ts. toks v = t # ts \<and> t \<noteq> TRBrack \<and> t \<noteq> TRBrace"
  by (cases v) simp_all

lemma join_head:
  assumes "xs \<noteq> []" and "\<And>x. x \<in> set xs \<Longrightarrow> \<exists>t ts. f x = t # ts \<and> P t"
  shows "\<exists>t ts. join sep (map f xs) = t # ts \<and> P t"
proof (cases xs)
  case Nil with assms(1) show ?thesis by simp
next
  case (Cons x ys)
  from assms(2) [of x] Cons obtain t ts where f: "f x = t # ts" "P t" by auto
  show ?thesis
  proof (cases ys)
    case Nil
    then show ?thesis using Cons f by simp
  next
    case (Cons y zs)
    then show ?thesis using \<open>xs = x # ys\<close> f by simp
  qed
qed

lemma open_list:
  "t \<noteq> TRBrack \<Longrightarrow> parse_value (Suc n) (TLBrack # t # ts) = parse_elems n [] (t # ts)"
  by (cases t) simp_all

lemma open_dict:
  "t \<noteq> TRBrace \<Longrightarrow> parse_value (Suc n) (TLBrace # t # ts) = parse_members n [] (t # ts)"
  by (cases t) simp_all

lemma parse_elems_toks:
  assumes "\<And>x n rest. x \<in> set xs \<Longrightarrow> length (toks x) \<le> n \<Longrightarrow>
             parse_value n (toks x @ rest) = Some (x, rest)"
    and "xs \<noteq> []"
    and "length (join [TComma] (map toks xs)) < n"
  shows "parse_elems n acc (join [TComma] (map toks xs) @ TRBrack # rest) = Some (PList (acc @ xs), rest)"
  using assms
proof (induction xs arbitrary: n acc rule: induct_list012)
  case 1
  then show ?case by simp
next
  case (2 x)
  from "2.prems"(3) obtain m where n: "n = Suc m" and m: "length (toks x) \<le> m"
    by (cases n) simp_all
  have "parse_value m (toks x @ TRBrack # rest) = Some (x, TRBrack # rest)"
    by (rule "2.prems"(1)) (simp_all add: m)
  then show ?case unfolding n by simp
next
  case (3 x y zs)
  let ?j = "join [TComma] (map toks (y # zs))"
  from "3.prems"(3) obtain m where n: "n = Suc m" and m: "length (toks x) + 1 + length ?j \<le> m"
    by (cases n) simp_all
  have v: "parse_value m (toks x @ TComma # ?j @ TRBrack # rest) = Some (x, TComma # ?j @ TRBrack # rest)"
    by (rule "3.prems"(1)) (use m in simp_all)
  have e: "parse_elems m (acc @ [x]) (?j @ TRBrack # rest) = Some (PList ((acc @ [x]) @ y # zs), rest)"
  proof (rule "3.IH"(2))
    show "parse_value n (toks x' @ rest) = Some (x', rest)"
      if "x' \<in> set (y # zs)" "length (toks x') \<le> n" for x' n rest
      by (rule "3.prems"(1)) (use that in simp_all)
    show "y # zs \<noteq> []" by simp
    show "length ?j < m" using m by simp
  qed
  have "parse_elems n acc (join [TComma] (map toks (x # y # zs)) @ TRBrack # rest) =
        parse_elems (Suc m) acc (toks x @ TComma # ?j @ TRBrack # rest)"
    unfolding n by simp
  also have "\<dots> = parse_elems m (acc @ [x]) (?j @ TRBrack # rest)"
    using v by simp
  finally show ?case using e by simp
qed

lemma parse_members_toks:
  assumes "\<And>kv n rest. kv \<in> set kvs \<Longrightarrow> length (toks (snd kv)) \<le> n \<Longrightarrow>
             parse_value n (toks (snd kv) @ rest) = Some (snd kv, rest)"
    and "kvs \<noteq> []"
    and "distinct (map fst (acc @ kvs))"
    and "length (join [TComma] (map (\<lambda>kv. TStr (fst kv) # TColon # toks (snd kv)) kvs)) < n"
  shows "parse_members n acc
           (join [TComma] (map (\<lambda>kv. TStr (fst kv) # TColon # toks (snd kv)) kvs) @ TRBrace # rest) =
         Some (PDict (acc @ kvs), rest)"
  using assms
proof (induction kvs arbitrary: n acc rule: induct_list012)
  case 1
  then show ?case by simp
next
  case (2 kv)
  obtain k v where kv: "kv = (k, v)" by (cases kv)
  from "2.prems"(4) obtain m where n: "n = Suc m" and m: "length (toks v) \<le> m"
    by (cases n) (simp_all add: kv)
  have p: "parse_value m (toks v @ TRBrace # rest) = Some (v, TRBrace # rest)"
    using "2.prems"(1) [of kv m "TRBrace # rest"] m by (simp add: kv)
  have f: "dict_set acc k v = acc @ [(k, v)]"
    by (rule dict_set_fresh) (use "2.prems"(3) in \<open>auto simp: kv\<close>)
  show ?case unfolding n using p f by (simp add: kv)
next
  case (3 kv y zs)
  obtain k v where kv: "kv = (k, v)" by (cases kv)
  let ?g = "\<lambda>kv. TStr (fst kv) # TColon # toks (snd kv)"
  let ?j = "join [TComma] (map ?g (y # zs))"
  from "3.prems"(4) obtain m where n: "n = Suc m" and m: "length (toks v) + 3 + length ?j \<le> m"
    by (cases n) (simp_all add: kv)
  have p: "parse_value m (toks v @ TComma # ?j @ TRBrace # rest) = Some (v, TComma # ?j @ TRBrace # rest)"
    using "3.prems"(1) [of kv m "TComma # ?j @ TRBrace # rest"] m by (simp add: kv)
  have f: "dict_set acc k v = acc @ [(k, v)]"
    by (rule dict_set_fresh) (use "3.prems"(3) in \<open>auto simp: kv\<close>)
  have e: "parse_members m (acc @ [(k, v)]) (?j @ TRBrace # rest) =
           Some (PDict ((acc @ [(k, v)]) @ y # zs), rest)"
  proof (rule "3.IH"(2))
    show "parse_value n (toks (snd kv') @ rest) = Some (snd kv', rest)"
      if "kv' \<in> set (y # zs)" "length (toks (snd kv')) \<le> n" for kv' n rest
      by (rule "3.prems"(1)) (use that in simp_all)
    show "y # zs \<noteq> []" by simp
    show "distinct (map fst ((acc @ [(k, v)]) @ y # zs))" using "3.prems"(3) by (simp add: kv)
    show "length ?j < m" using m by simp
  qed
  have "parse_members n acc (join [TComma] (map ?g (kv # y # zs)) @ TRBrace # rest) =
        parse_members (Suc m) acc (TStr k # TColon # toks v @ TComma # ?j @ TRBrace # rest)"
    unfolding n by (simp add: kv)
  also have "\<dots> = parse_members m (acc @ [(k, v)]) (?j @ TRBrace # rest)"
    using p f by simp
  finally show ?case using e by (simp add: kv)
qed

lemma parse_value_toks:
  "wf_pyval v \<Longrightarrow> length (toks v) \<le> n \<Longrightarrow> parse_value n (toks v @ rest) = Some (v, rest)"
proof (induction v arbitrary: n rest)
  case PNone
  then show ?case by (cases n) simp_all
next
  case (PInt i)
  then show ?case by (cases n) simp_all
next
  case (PStr s)
  then show ?case by (cases n) simp_all
next
  case (PList xs)
  from PList.prems(2) obtain m where n: "n = Suc m"
    and m: "length (join [TComma] (map toks xs)) < m"
    by (cases n) simp_all
  show ?case
  proof (cases "xs = []")
    case True
    then show ?thesis unfolding n by simp
  next
    case False
    have wf: "wf_pyval x" if "x \<in> set xs" for x
      using PList.prems(1) that by (simp add: list_all_iff)
    obtain t ts where j: "join [TComma] (map toks xs) = t # ts" and t: "t \<noteq> TRBrack"
      using join_head [OF False, of toks "\<lambda>t. t \<noteq> TRBrack" "[TComma]"] toks_head by blast
    have "parse_value n (toks (PList xs) @ rest) =
          parse_elems m [] (join [TComma] (map toks xs) @ TRBrack # rest)"
      unfolding n toks.simps j using open_list [OF t] by simp
    also have "\<dots> = Some (PList ([] @ xs), rest)"
      by (rule parse_elems_toks) (simp_all add: PList.IH wf False m)
    finally show ?thesis by simp
  qed
next
  case (PDict kvs)
  let ?g = "\<lambda>kv. TStr (fst kv) # TColon # toks (snd kv)"
  from PDict.prems(2) obtain m where n: "n = Suc m"
    and m: "length (join [TComma] (map ?g kvs)) < m"
    by (cases n) simp_all
  show ?case
  proof (cases "kvs = []")
    case True
    then show ?thesis unfolding n by simp
  next
    case False
    have el: "parse_value n (toks (snd kv) @ rest) = Some (snd kv, rest)"
      if "kv \<in> set kvs" "length (toks (snd kv)) \<le> n" for kv n rest
    proof (rule PDict.IH [OF that(1)])
      show "snd kv \<in> Basic_BNFs.snds kv" by (cases kv) simp
      show "wf_pyval (snd kv)" using PDict.prems(1) that(1) by (simp add: list_all_iff)
      show "length (toks (snd kv)) \<le> n" by (rule that(2))
    qed
    obtain t ts where j: "join [TComma] (map ?g kvs) = t # ts" and t: "t \<noteq> TRBrace"
      using join_head [OF False, of ?g "\<lambda>t. t \<noteq> TRBrace" "[TComma]"] by auto
    have "parse_value n (toks (PDict kvs) @ rest) =
          parse_members m [] (join [TComma] (map ?g kvs) @ TRBrace # rest)"
      unfolding n toks.simps j using open_dict [OF t] by simp
    also have "\<dots> = Some (PDict ([] @ kvs), rest)"
      by (rule parse_members_toks) (use el False m PDict.prems(1) in simp_all)
    finally show ?thesis by simp
  qed
qed

lemma json_loads_toks:
  assumes "scan Idle s = Some (toks v)" and "wf_pyval v"
  shows "json_loads s = Inr v"
proof -
  have "parse_value (Suc (length (toks v))) (toks v @ []) = Some (v, [])"
    by (rule parse_value_toks [OF assms(2)]) simp
  then show ?thesis using assms(1) by (simp add: json_loads_def)
qed

subsection \<open>Reading back the exported document\<close>

lemma rmap_map:
  assumes "\<And>x. x \<in> set xs \<Longrightarrow> f (g x) = Inr (h x)"
  shows "rmap f (map g xs) = Inr (map h xs)"
  using assms by (induction xs) (simp_all add: rbind_def)

lemma as_interior_inverse:
  "as_interior (PList (map (\<lambda>rw. PList (map PInt rw)) rws)) = Inr rws"
proof -
  have r: "rmap as_int (map PInt rw) = Inr (map (\<lambda>i. i) rw)" for rw
    by (rule rmap_map) (simp add: as_int_def)
  have "rmap (\<lambda>rw. rbind (as_list rw) (rmap as_int)) (map (\<lambda>rw. PList (map PInt rw)) rws) =
        Inr (map (\<lambda>rw. rw) rws)"
    by (rule rmap_map) (simp add: as_list_def rbind_def r)
  then show ?thesis by (simp add: as_interior_def as_list_def rbind_def)
qed

lemma Room_from_dict_inverse: "Room_from_dict (Room_to_dict r) = Inr r"
  by (simp add: Room_from_dict_def Room_to_dict_def as_dict_def dict_item_def as_int_def
        rbind_def as_interior_inverse Room_init_def)

lemma LayoutEntry_from_dict_inverse: "LayoutEntry_from_dict (LayoutEntry_to_dict e) = Inr e"
  by (simp add: LayoutEntry_from_dict_def LayoutEntry_to_dict_def as_dict_def dict_item_def
        as_int_def rbind_def)

lemma GridPosition_from_dict_inverse: "GridPosition_from_dict (GridPosition_to_dict p) = Inr p"
  by (simp add: GridPosition_from_dict_def GridPosition_to_dict_def as_dict_def dict_item_def
        as_int_def rbind_def)

lemma RoomConnection_from_dict_inverse:
  "RoomConnection_from_dict (RoomConnection_to_dict c) = Inr c"
  by (simp add: RoomConnection_from_dict_def RoomConnection_to_dict_def as_dict_def dict_item_def
        as_str_def rbind_def GridPosition_from_dict_inverse)

lemma as_opt_int_inverse: "as_opt_int (opt_to_py v) = Inr v"
  by (cases v) (simp_all add: as_opt_int_def opt_to_py_def)

lemma py_index_range:
  assumes "0 \<le> i" and "i < n"
  shows "py_index (map f (py_range n)) i = Inr (f i)"
proof -
  have l: "nat i < length (map f (py_range n))" using assms by (simp add: py_range_nat)
  have "py_index (map f (py_range n)) (int (nat i)) = Inr (map f (py_range n) ! nat i)"
    by (rule py_index_nat [OF l])
  moreover have "map f (py_range n) ! nat i = f i"
    using assms by (simp add: py_range_nat)
  ultimately show ?thesis using assms by simp
qed

text \<open>The grid that \<open>to_dict\<close> writes and \<open>from_dict\<close> rebuilds.\<close>

lemma fill_row_cells:
  assumes r: "0 \<le> r" "r < nr" and cs: "set cs \<subseteq> set (py_range nc)"
  shows "fill_row
           (map (\<lambda>r. PList (map (\<lambda>c. opt_to_py (cell (GridPosition r c))) (py_range nc))) (py_range nr))
           r g cs =
         Inr (\<lambda>p. if row p = r \<and> col p \<in> set cs then Some (cell p) else g p)"
  using cs
proof (induction cs arbitrary: g)
  case Nil
  show ?case by simp
next
  case (Cons c cs)
  let ?gl = "map (\<lambda>r. PList (map (\<lambda>c. opt_to_py (cell (GridPosition r c))) (py_range nc))) (py_range nr)"
  from Cons.prems have c: "0 \<le> c" "c < nc" and sub: "set cs \<subseteq> set (py_range nc)"
    by (simp_all add: set_py_range)
  have a: "py_index ?gl r = Inr (PList (map (\<lambda>c. opt_to_py (cell (GridPosition r c))) (py_range nc)))"
    by (rule py_index_range [OF r])
  have b: "py_index (map (\<lambda>c. opt_to_py (cell (GridPosition r c))) (py_range nc)) c =
           Inr (opt_to_py (cell (GridPosition r c)))"
    by (rule py_index_range [OF c])
  have "fill_row ?gl r g (c # cs) = fill_row ?gl r (g(GridPosition r c \<mapsto> cell (GridPosition r c))) cs"
    by (simp add: a b rbind_def as_list_def as_opt_int_inverse del: py_range_def)
  also have "\<dots> = Inr (\<lambda>p. if row p = r \<and> col p \<in> set cs then Some (cell p)
                          else (g(GridPosition r c \<mapsto> cell (GridPosition r c))) p)"
    by (rule Cons.IH [OF sub])
  also have "(\<lambda>p. if row p = r \<and> col p \<in> set cs then Some (cell p)
                  else (g(GridPosition r c \<mapsto> cell (GridPosition r c))) p) =
             (\<lambda>p. if row p = r \<and> col p \<in> set (c # cs) then Some (cell p) else g p)"
  proof (rule ext)
    fix p show "(if row p = r \<and> col p \<in> set cs then Some (cell p)
                  else (g(GridPosition r c \<mapsto> cell (GridPosition r c))) p) =
                (if row p = r \<and> col p \<in> set (c # cs) then Some (cell p) else g p)"
      by (cases p) auto
  qed
  finally show ?case .
qed

lemma fill_rows_cells:
  assumes "set rs \<subseteq> set (py_range nr)"
  shows "fill_rows
           (map (\<lambda>r. PList (map (\<lambda>c. opt_to_py (cell (GridPosition r c))) (py_range nc))) (py_range nr))
           nc g rs =
         Inr (\<lambda>p. if row p \<in> set rs \<and> col p \<in> set (py_range nc) then Some (cell p) else g p)"
  using assms
proof (induction rs arbitrary: g)
  case Nil
  show ?case by simp
next
  case (Cons r rs)
  let ?gl = "map (\<lambda>r. PList (map (\<lambda>c. opt_to_py (cell (GridPosition r c))) (py_range nc))) (py_range nr)"
  from Cons.prems have r: "0 \<le> r" "r < nr" and sub: "set rs \<subseteq> set (py_range nr)"
    by (simp_all add: set_py_range)
  let ?g1 = "\<lambda>p. if row p = r \<and> col p \<in> set (py_range nc) then Some (cell p) else g p"
  have a: "fill_row ?gl r g (py_range nc) = Inr ?g1"
    by (rule fill_row_cells [OF r]) simp
  have "fill_rows ?gl nc g (r # rs) = fill_rows ?gl nc ?g1 rs"
    by (simp only: fill_rows.simps a rbind_def sum.case)
  also have "\<dots> = Inr (\<lambda>p. if row p \<in> set rs \<and> col p \<in> set (py_range nc) then Some (cell p) else ?g1 p)"
    by (rule Cons.IH [OF sub])
  also have "(\<lambda>p. if row p \<in> set rs \<and> col p \<in> set (py_range nc) then Some (cell p) else ?g1 p) =
             (\<lambda>p. if row p \<in> set (r # rs) \<and> col p \<in> set (py_range nc) then Some (cell p) else g p)"
    by (rule ext) auto
  finally show ?case .
qed

lemma FloorLayout_from_dict_inverse:
  "FloorLayout_from_dict (FloorLayout_to_dict fl) =
   Inr (fl\<lparr>grid := (\<lambda>p. if in_extent fl p then Some (get_room_at fl p) else None)\<rparr>)"
proof -
  let ?gl = "map (\<lambda>r. PList (map (\<lambda>c. opt_to_py (get_room_at fl (GridPosition r c)))
                                (py_range (cols fl)))) (py_range (rows fl))"
  let ?g0 = "grid (FloorLayout_init (rows fl) (cols fl))"
  have f: "fill_rows ?gl (cols fl) ?g0 (py_range (rows fl)) =
           Inr (\<lambda>p. if row p \<in> set (py_range (rows fl)) \<and> col p \<in> set (py_range (cols fl))
                    then Some (get_room_at fl p) else ?g0 p)"
    by (rule fill_rows_cells) simp
  have g: "(\<lambda>p. if row p \<in> set (py_range (rows fl)) \<and> col p \<in> set (py_range (cols fl))
                 then Some (get_room_at fl p) else ?g0 p) =
           (\<lambda>p. if in_extent fl p then Some (get_room_at fl p) else None)"
    by (rule ext) (auto simp: set_py_range in_extent_def FloorLayout_init_grid)
  have c: "rmap RoomConnection_from_dict (map RoomConnection_to_dict (connections fl)) =
           Inr (map (\<lambda>c. c) (connections fl))"
    by (rule rmap_map) (rule RoomConnection_from_dict_inverse)
  have "FloorLayout_from_dict (FloorLayout_to_dict fl) =
        Inr ((FloorLayout_init (rows fl) (cols fl))
               \<lparr>grid := (\<lambda>p. if in_extent fl p then Some (get_room_at fl p) else None),
                connections := connections fl\<rparr>)"
    unfolding FloorLayout_from_dict_def FloorLayout_to_dict_def
    by (simp add: as_dict_def dict_item_def dict_get_def as_int_def as_list_def rbind_def f g c
          del: py_range_def)
  moreover have "(FloorLayout_init (rows fl) (cols fl))
               \<lparr>grid := (\<lambda>p. if in_extent fl p then Some (get_room_at fl p) else None),
                connections := connections fl\<rparr> =
             fl\<lparr>grid := (\<lambda>p. if in_extent fl p then Some (get_room_at fl p) else None)\<rparr>"
    by (simp add: FloorLayout_init_def)
  ultimately show ?thesis by simp
qed

lemma dense_stored_grid:
  assumes "dense fl"
  shows "fl\<lparr>grid := (\<lambda>p. if in_extent fl p then Some (get_room_at fl p) else None)\<rparr> = fl"
proof -
  have "(\<lambda>p. if in_extent fl p then Some (get_room_at fl p) else None) = grid fl"
  proof (rule ext)
    fix p
    show "(if in_extent fl p then Some (get_room_at fl p) else None) = grid fl p"
    proof (cases "in_extent fl p")
      case True
      then have "p \<in> dom (grid fl)" using assms by (simp add: dense_def)
      then show ?thesis using True by (auto simp: get_room_at_def)
    next
      case False
      then show ?thesis using dense_outside [OF assms] by simp
    qed
  qed
  then show ?thesis by simp
qed

lemma wf_opt_to_py: "wf_pyval (opt_to_py v)"
  by (cases v) (simp_all add: opt_to_py_def)

lemma wf_Room_to_dict:
  "wf_pyval (PDict (exits r)) \<Longrightarrow> wf_pyval (PDict (theme r)) \<Longrightarrow> wf_pyval (Room_to_dict r)"
  by (simp add: Room_to_dict_def list_all_iff)

lemma wf_LayoutEntry_to_dict: "wf_pyval (LayoutEntry_to_dict e)"
  by (simp add: LayoutEntry_to_dict_def)

lemma wf_RoomConnection_to_dict: "wf_pyval (RoomConnection_to_dict c)"
  by (simp add: RoomConnection_to_dict_def GridPosition_to_dict_def)

lemma wf_FloorLayout_to_dict: "wf_pyval (FloorLayout_to_dict fl)"
  by (simp add: FloorLayout_to_dict_def list_all_iff wf_opt_to_py wf_RoomConnection_to_dict)

lemma wf_Level_to_dict:
  assumes "dicts_ok lv"
  shows "wf_pyval (Level_to_dict lv)"
proof -
  have t: "wf_pyval (tile_types lv)" using assms by (simp add: dicts_ok_def)
  have r: "wf_pyval (PList (map Room_to_dict (rooms lv)))"
    using assms by (auto simp: dicts_ok_def list_all_iff intro: wf_Room_to_dict)
  have e: "wf_pyval (PList (map LayoutEntry_to_dict (layout lv)))"
    by (simp add: list_all_iff wf_LayoutEntry_to_dict)
  have f: "wf_pyval (PList (map FloorLayout_to_dict (floor_layouts lv)))"
    by (simp add: list_all_iff wf_FloorLayout_to_dict)
  show ?thesis
    unfolding Level_to_dict_def using t r e f by (simp del: wf_pyval.simps(4))
qed

lemma from_json_to_json:
  assumes "dicts_ok lv"
  shows "from_json (to_json lv) =
         Inr (lv\<lparr>floor_layouts :=
                map (\<lambda>fl. fl\<lparr>grid := (\<lambda>p. if in_extent fl p then Some (get_room_at fl p) else None)\<rparr>)
                  (floor_layouts lv)\<rparr>)"
proof -
  have l: "json_loads (to_json lv) = Inr (Level_to_dict lv)"
    by (rule json_loads_toks [OF scan_to_json wf_Level_to_dict [OF assms]])
  have r: "rmap Room_from_dict (map Room_to_dict (rooms lv)) = Inr (map (\<lambda>r. r) (rooms lv))"
    by (rule rmap_map) (rule Room_from_dict_inverse)
  have e: "rmap LayoutEntry_from_dict (map LayoutEntry_to_dict (layout lv)) =
           Inr (map (\<lambda>e. e) (layout lv))"
    by (rule rmap_map) (rule LayoutEntry_from_dict_inverse)
  have f: "rmap FloorLayout_from_dict (map FloorLayout_to_dict (floor_layouts lv)) =
           Inr (map (\<lambda>fl. fl\<lparr>grid := (\<lambda>p. if in_extent fl p then Some (get_room_at fl p) else None)\<rparr>)
                  (floor_layouts lv))"
    by (rule rmap_map) (rule FloorLayout_from_dict_inverse)
  show ?thesis
    unfolding from_json_def l
    by (simp add: Level_to_dict_def rbind_def as_dict_def as_list_def dict_get_def r e f Level_init_def)
qed

subsection \<open>Levels that satisfy the representation conditions\<close>

lemma dict_set_keys: "fst ` set (dict_set d k v) = insert k (fst ` set d)"
proof (induction d)
  case Nil
  show ?case by simp
next
  case (Cons a d)
  obtain k' v' where a: "a = (k', v')" by (cases a)
  show ?case
  proof (cases "k' = k")
    case True
    then show ?thesis by (simp add: a)
  next
    case False
    then show ?thesis using Cons by (simp add: a insert_commute)
  qed
qed

lemma dict_set_values: "set (dict_set d k v) \<subseteq> insert (k, v) (set d)"
proof (induction d)
  case Nil
  show ?case by simp
next
  case (Cons a d)
  obtain k' v' where a: "a = (k', v')" by (cases a)
  show ?case
  proof (cases "k' = k")
    case True
    then show ?thesis by (auto simp: a)
  next
    case False
    then show ?thesis using Cons by (auto simp: a)
  qed
qed

lemma dict_set_distinct: "distinct (map fst d) \<Longrightarrow> distinct (map fst (dict_set d k v))"
proof (induction d)
  case Nil
  show ?case by simp
next
  case (Cons a d)
  have "fst a \<notin> fst ` set (dict_set d k v)" if "fst a \<noteq> k"
    using Cons.prems that by (simp add: dict_set_keys)
  then show ?case using Cons by (cases a) auto
qed

lemma wf_dict_set:
  assumes "wf_pyval (PDict d)" and "wf_pyval v"
  shows "wf_pyval (PDict (dict_set d k v))"
proof -
  have "wf_pyval (snd kv)" if "kv \<in> set (dict_set d k v)" for kv
    using that dict_set_values [of d k v] assms by (auto simp: list_all_iff)
  then show ?thesis using assms(1) by (simp add: list_all_iff dict_set_distinct)
qed

lemma wf_parse:
  "(\<forall>ts v r. parse_value n ts = Some (v, r) \<longrightarrow> wf_pyval v) \<and>
   (\<forall>acc ts v r. list_all wf_pyval acc \<longrightarrow> parse_elems n acc ts = Some (v, r) \<longrightarrow> wf_pyval v) \<and>
   (\<forall>acc ts v r. wf_pyval (PDict acc) \<longrightarrow> parse_members n acc ts = Some (v, r) \<longrightarrow> wf_pyval v)"
proof (induction n)
  case 0
  show ?case by simp
next
  case (Suc n)
  have v: "wf_pyval v" if "parse_value n ts = Some (v, r)" for ts v r
    using Suc that by blast
  have e: "wf_pyval v" if "list_all wf_pyval acc" "parse_elems n acc ts = Some (v, r)" for acc ts v r
    using Suc that by blast
  have m: "wf_pyval v" if "wf_pyval (PDict acc)" "parse_members n acc ts = Some (v, r)" for acc ts v r
    using Suc that by blast
  have 1: "wf_pyval v" if p: "parse_value (Suc n) ts = Some (v, r)" for ts v r
  proof (cases ts)
    case Nil
    with p show ?thesis by simp
  next
    case (Cons t ts')
    show ?thesis
    proof (cases t)
      case TLBrack
      show ?thesis
      proof (cases "\<exists>r'. ts' = TRBrack # r'")
        case True
        then show ?thesis using p Cons TLBrack by auto
      next
        case False
        then have "parse_value (Suc n) ts = parse_elems n [] ts'"
          unfolding Cons TLBrack by (auto split: list.splits token.splits)
        then show ?thesis using p e [of "[]" ts' v r] by simp
      qed
    next
      case TLBrace
      show ?thesis
      proof (cases "\<exists>r'. ts' = TRBrace # r'")
        case True
        then show ?thesis using p Cons TLBrace by auto
      next
        case False
        then have "parse_value (Suc n) ts = parse_members n [] ts'"
          unfolding Cons TLBrace by (auto split: list.splits token.splits)
        then show ?thesis using p m [of "[]" ts' v r] by simp
      qed
    qed (use p Cons in auto)
  qed
  have 2: "wf_pyval v"
    if a: "list_all wf_pyval acc" and p: "parse_elems (Suc n) acc ts = Some (v, r)" for acc ts v r
  proof (cases "parse_value n ts")
    case None
    with p show ?thesis by simp
  next
    case (Some xr)
    obtain x r1 where xr: "xr = (x, r1)" by (cases xr)
    have wx: "wf_pyval x" using v Some xr by blast
    have wa: "list_all wf_pyval (acc @ [x])" using a wx by simp
    show ?thesis
    proof (cases r1)
      case Nil
      with p Some xr show ?thesis by simp
    next
      case (Cons t r2)
      show ?thesis
      proof (cases t)
        case TComma
        then have "parse_elems n (acc @ [x]) r2 = Some (v, r)" using p Some xr Cons by simp
        then show ?thesis using e [OF wa] by blast
      next
        case TRBrack
        then have "v = PList (acc @ [x])" using p Some xr Cons by simp
        then show ?thesis using wa by simp
      qed (use p Some xr Cons in auto)
    qed
  qed
  have 3: "wf_pyval v"
    if a: "wf_pyval (PDict acc)" and p: "parse_members (Suc n) acc ts = Some (v, r)" for acc ts v r
  proof -
    from p obtain k ts' where ts: "ts = TStr k # TColon # ts'"
      by (auto split: list.splits token.splits)
    show ?thesis
    proof (cases "parse_value n ts'")
      case None
      with p ts show ?thesis by simp
    next
      case (Some xr)
      obtain x r1 where xr: "xr = (x, r1)" by (cases xr)
      have wx: "wf_pyval x" using v Some xr by blast
      have wa: "wf_pyval (PDict (dict_set acc k x))" by (rule wf_dict_set [OF a wx])
      show ?thesis
      proof (cases r1)
        case Nil
        with p ts Some xr show ?thesis by simp
      next
        case (Cons t r2)
        show ?thesis
        proof (cases t)
          case TComma
          then have "parse_members n (dict_set acc k x) r2 = Some (v, r)"
            using p ts Some xr Cons by simp
          then show ?thesis using m [OF wa] by blast
        next
          case TRBrace
          then have "v = PDict (dict_set acc k x)" using p ts Some xr Cons by simp
          then show ?thesis using wa by simp
        qed (use p ts Some xr Cons in auto)
      qed
    qed
  qed
  show ?case using 1 2 3 by blast
qed

lemma wf_json_loads: "json_loads s = Inr v \<Longrightarrow> wf_pyval v"
  using wf_parse by (auto simp: json_loads_def split: option.splits list.splits) blast

lemma rbind_Inr: "rbind m f = Inr y \<longleftrightarrow> (\<exists>x. m = Inr x \<and> f x = Inr y)"
  by (cases m) (simp_all add: rbind_def)

lemma as_dict_Inr: "as_dict v = Inr d \<longleftrightarrow> v = PDict d"
  by (cases v) (simp_all add: as_dict_def)

lemma as_list_Inr: "as_list v = Inr xs \<longleftrightarrow> v = PList xs"
  by (cases v) (simp_all add: as_list_def)

lemma dict_item_Inr: "dict_item d k = Inr v \<longleftrightarrow> map_of d k = Some v"
  by (simp add: dict_item_def split: option.splits)

lemma wf_map_of: "wf_pyval (PDict d) \<Longrightarrow> map_of d k = Some v \<Longrightarrow> wf_pyval v"
  by (auto simp: list_all_iff dest!: map_of_SomeD)

lemma wf_dict_get:
  "wf_pyval (PDict d) \<Longrightarrow> wf_pyval dflt \<Longrightarrow> wf_pyval (dict_get d k dflt)"
  by (auto simp: dict_get_def wf_map_of split: option.splits)

lemma rmap_all:
  assumes "rmap f xs = Inr ys" and "\<And>x y. x \<in> set xs \<Longrightarrow> f x = Inr y \<Longrightarrow> Q y"
  shows "list_all Q ys"
  using assms
proof (induction xs arbitrary: ys)
  case Nil
  then show ?case by simp
next
  case (Cons x xs)
  from Cons.prems(1) obtain y zs where y: "f x = Inr y" and zs: "rmap f xs = Inr zs"
    and ys: "ys = y # zs"
    by (auto simp: rbind_Inr)
  have "Q y" using Cons.prems(2) [of x y] y by simp
  moreover have "list_all Q zs" by (rule Cons.IH [OF zs]) (use Cons.prems(2) in auto)
  ultimately show ?case by (simp add: ys)
qed

lemma wf_Room_from_dict:
  assumes "Room_from_dict x = Inr r" and "wf_pyval x"
  shows "wf_pyval (PDict (exits r)) \<and> wf_pyval (PDict (theme r))"
proof -
  from assms(1) obtain d ex th where x: "x = PDict d"
    and ex: "map_of d ''exits'' = Some (PDict ex)" and th: "map_of d ''theme'' = Some (PDict th)"
    and r: "exits r = ex" "theme r = th"
    unfolding Room_from_dict_def by (auto simp: rbind_Inr as_dict_Inr dict_item_Inr)
  show ?thesis
    using wf_map_of [OF assms(2) [unfolded x] ex] wf_map_of [OF assms(2) [unfolded x] th] r
    by simp
qed

lemma fill_row_dom:
  "fill_row gl r g cs = Inr g' \<Longrightarrow> dom g' = dom g \<union> {GridPosition r c | c. c \<in> set cs}"
proof (induction cs arbitrary: g)
  case Nil
  then show ?case by simp
next
  case (Cons c cs)
  from Cons.prems obtain v where fr: "fill_row gl r (g(GridPosition r c \<mapsto> v)) cs = Inr g'"
    by (auto simp: rbind_Inr)
  have d: "dom (g(GridPosition r c \<mapsto> v)) = insert (GridPosition r c) (dom g)" by simp
  show ?case unfolding Cons.IH [OF fr] d by auto
qed

lemma fill_rows_dom:
  "fill_rows gl n g rs = Inr g' \<Longrightarrow>
   dom g' = dom g \<union> {GridPosition r c | r c. r \<in> set rs \<and> c \<in> set (py_range n)}"
proof (induction rs arbitrary: g)
  case Nil
  then show ?case by simp
next
  case (Cons r rs)
  from Cons.prems obtain g1 where a: "fill_row gl r g (py_range n) = Inr g1"
    and b: "fill_rows gl n g1 rs = Inr g'"
    by (auto simp: rbind_Inr)
  show ?case unfolding Cons.IH [OF b] fill_row_dom [OF a] by auto
qed

lemma dense_FloorLayout_from_dict:
  assumes "FloorLayout_from_dict x = Inr fl"
  shows "dense fl"
proof -
  from assms obtain nr nc gl g where f: "fill_rows gl nc (grid (FloorLayout_init nr nc)) (py_range nr) = Inr g"
    and fl: "rows fl = nr" "cols fl = nc" "grid fl = g"
    unfolding FloorLayout_from_dict_def
    by (auto simp: rbind_Inr FloorLayout_init_sel simp del: py_range_def)
  have d0: "dom (grid (FloorLayout_init nr nc)) =
            {p. 0 \<le> row p \<and> row p < nr \<and> 0 \<le> col p \<and> col p < nc}"
    by (auto simp: dom_def FloorLayout_init_grid)
  have "dom g = {p. 0 \<le> row p \<and> row p < nr \<and> 0 \<le> col p \<and> col p < nc}"
    unfolding fill_rows_dom [OF f] d0 by (auto simp: set_py_range)
  then show ?thesis unfolding dense_def in_extent_def fl by auto
qed

lemma from_json_ok:
  assumes "from_json s = Inr lv"
  shows "dicts_ok lv \<and> list_all dense (floor_layouts lv)"
proof -
  from assms obtain d rs fs rl fl where l: "json_loads s = Inr (PDict d)"
    and rs: "dict_get d ''rooms'' (PList []) = PList rl" "rmap Room_from_dict rl = Inr rs"
    and fs: "dict_get d ''floor_layouts'' (PList []) = PList fl" "rmap FloorLayout_from_dict fl = Inr fs"
    and lv: "tile_types lv = dict_get d ''tile_types'' (tile_types Level_init)"
            "rooms lv = rs" "floor_layouts lv = fs"
    unfolding from_json_def by (auto simp: rbind_Inr as_dict_Inr as_list_Inr)
  have wd: "wf_pyval (PDict d)" by (rule wf_json_loads [OF l])
  have w0: "wf_pyval (tile_types Level_init)" by (simp add: Level_init_def)
  have t: "wf_pyval (tile_types lv)" unfolding lv by (rule wf_dict_get [OF wd w0])
  have "wf_pyval (PList rl)" using wf_dict_get [OF wd, of "PList []" "''rooms''"] rs(1) by simp
  then have wr: "wf_pyval x" if "x \<in> set rl" for x using that by (simp add: list_all_iff)
  have r: "list_all (\<lambda>r. wf_pyval (PDict (exits r)) \<and> wf_pyval (PDict (theme r))) rs"
    by (rule rmap_all [OF rs(2)]) (rule wf_Room_from_dict, assumption, rule wr)
  have f: "list_all dense fs"
    by (rule rmap_all [OF fs(2)]) (rule dense_FloorLayout_from_dict)
  show ?thesis using t r f by (simp add: dicts_ok_def lv)
qed

subsection \<open>The round trip\<close>

lemma dense_place_room: "dense fl \<Longrightarrow> dense (place_room fl p v)"
  by (auto simp: dense_def place_room_def in_extent_def)

lemma dense_add_row: "dense fl \<Longrightarrow> 0 \<le> rows fl \<Longrightarrow> dense (add_row fl)"
  unfolding dense_def in_extent_def dom_def add_row_def Let_def
  by (simp add: clear_row_apply) (metis add.commute less_le not_less zless_add1_eq)

lemma dense_add_column: "dense fl \<Longrightarrow> 0 \<le> cols fl \<Longrightarrow> dense (add_column fl)"
  unfolding dense_def in_extent_def dom_def add_column_def Let_def
  by (simp add: clear_column_apply) (metis add.commute less_le not_less zless_add1_eq)

lemma dicts_ok_init: "dicts_ok Level_init"
  by (simp add: dicts_ok_def Level_init_def)

lemma wf_Room_init:
  "wf_pyval (PDict (exits (Room_init i w h)))" "wf_pyval (PDict (theme (Room_init i w h)))"
  by (simp_all add: Room_init_def)

lemma reload_exact:
  assumes "from_json s = Inr lv"
  shows "from_json (to_json lv) = Inr lv"
proof -
  from from_json_ok [OF assms] have ok: "dicts_ok lv" and d: "list_all dense (floor_layouts lv)"
    by simp_all
  have "map (\<lambda>fl. fl\<lparr>grid := (\<lambda>p. if in_extent fl p then Some (get_room_at fl p) else None)\<rparr>)
          (floor_layouts lv) = map (\<lambda>fl. fl) (floor_layouts lv)"
    by (rule map_cong) (use d in \<open>simp_all add: list_all_iff dense_stored_grid\<close>)
  then show ?thesis using from_json_to_json [OF ok] by simp
qed

text \<open>
  Claim C1. For every level whose dictionaries (\<open>tile_types\<close>, and \<open>exits\<close> and \<open>theme\<close>
  of each room) have distinct keys, as every Python dictionary has, reading the text written
  by \<open>to_json\<close> with \<open>from_json\<close> raises nothing and yields a level with the same
  \<open>rooms\<close> list (ids, widths, heights, interiors, exits and themes, in order), the same
  \<open>layout\<close> list, the same \<open>tile_types\<close>, and as many floor layouts, each with the same
  \<open>rows\<close>, \<open>cols\<close> and \<open>connections\<close> list (in order, hence as a set) and the same cell
  content at every position of its \<open>rows \<times> cols\<close> extent; outside of the extent the layout
  read back is empty. When the grids are dense the level read back is equal to the
  level written. Levels read by \<open>from_json\<close> satisfy both conditions (\<open>from_json_ok\<close>), so
  do \<open>Level_init\<close>, \<open>Room_init\<close> and \<open>FloorLayout_init\<close>. Values are the JSON values
  \<open>pyval\<close> and characters the code points below 256.
\<close>

theorem json_round_trip:
  assumes "dicts_ok lv"
  shows "\<exists>lv'. from_json (to_json lv) = Inr lv' \<and>
           rooms lv' = rooms lv \<and>
           layout lv' = layout lv \<and>
           tile_types lv' = tile_types lv \<and>
           length (floor_layouts lv') = length (floor_layouts lv) \<and>
           (\<forall>i<length (floor_layouts lv).
              rows (floor_layouts lv' ! i) = rows (floor_layouts lv ! i) \<and>
              cols (floor_layouts lv' ! i) = cols (floor_layouts lv ! i) \<and>
              connections (floor_layouts lv' ! i) = connections (floor_layouts lv ! i) \<and>
              (\<forall>p. in_extent (floor_layouts lv ! i) p \<longrightarrow>
                   get_room_at (floor_layouts lv' ! i) p = get_room_at (floor_layouts lv ! i) p) \<and>
              (\<forall>p. \<not> in_extent (floor_layouts lv ! i) p \<longrightarrow>
                   get_room_at (floor_layouts lv' ! i) p = None)) \<and>
           (list_all dense (floor_layouts lv) \<longrightarrow> lv' = lv)"
proof -
  let ?w = "\<lambda>fl. fl\<lparr>grid := (\<lambda>p. if in_extent fl p then Some (get_room_at fl p) else None)\<rparr>"
  let ?lv = "lv\<lparr>floor_layouts := map ?w (floor_layouts lv)\<rparr>"
  have a: "from_json (to_json lv) = Inr ?lv" by (rule from_json_to_json [OF assms])
  have b: "rooms ?lv = rooms lv" "layout ?lv = layout lv" "tile_types ?lv = tile_types lv"
    "length (floor_layouts ?lv) = length (floor_layouts lv)"
    by simp_all
  have c: "rows (floor_layouts ?lv ! i) = rows (floor_layouts lv ! i) \<and>
           cols (floor_layouts ?lv ! i) = cols (floor_layouts lv ! i) \<and>
           connections (floor_layouts ?lv ! i) = connections (floor_layouts lv ! i) \<and>
           (\<forall>p. in_extent (floor_layouts lv ! i) p \<longrightarrow>
                get_room_at (floor_layouts ?lv ! i) p = get_room_at (floor_layouts lv ! i) p) \<and>
           (\<forall>p. \<not> in_extent (floor_layouts lv ! i) p \<longrightarrow>
                get_room_at (floor_layouts ?lv ! i) p = None)"
    if "i < length (floor_layouts lv)" for i
    using that by (simp add: get_room_at_def)
  have d: "?lv = lv" if "list_all dense (floor_layouts lv)"
  proof -
    have "map ?w (floor_layouts lv) = map (\<lambda>fl. fl) (floor_layouts lv)"
      by (rule map_cong) (use that in \<open>simp_all add: list_all_iff dense_stored_grid\<close>)
    then show ?thesis by simp
  qed
  show ?thesis
    by (rule exI [of _ ?lv]) (use a b c d in blast)
qed

theorem json_round_trip_witness:
  "(let lv = Level_init
       \<lparr>rooms := [(Room_init 1 4 4)
                    \<lparr>exits := [(''left'', PNone), (''right'', PDict [(''type'', PStr ''doorway'')])]\<rparr>],
        layout := [\<lparr>room_id = 1, position = 0\<rparr>],
        floor_layouts := [place_room (FloorLayout_init 1 2) (GridPosition 0 1) (Some 1)]\<rparr>
    in dicts_ok lv \<and> list_all dense (floor_layouts lv) \<and> from_json (to_json lv) = Inr lv)"
proof -
  let ?lv = "Level_init
       \<lparr>rooms := [(Room_init 1 4 4)
                    \<lparr>exits := [(''left'', PNone), (''right'', PDict [(''type'', PStr ''doorway'')])]\<rparr>],
        layout := [\<lparr>room_id = 1, position = 0\<rparr>],
        floor_layouts := [place_room (FloorLayout_init 1 2) (GridPosition 0 1) (Some 1)]\<rparr>"
  have h: "dicts_ok ?lv" by (simp add: dicts_ok_def Level_init_def Room_init_def)
  have d: "list_all dense (floor_layouts ?lv)" by (simp add: dense_place_room dense_init)
  from json_round_trip [OF h] d have "from_json (to_json ?lv) = Inr ?lv" by metis
  with h d show ?thesis unfolding Let_def by blast
qed

end
